theory Spec2Isabelle
  imports Main "HOL-Library.Word"
begin

unbundle bit_operations_syntax

section \<open>Byte slices\<close>

text \<open>
  A Go \<^verbatim>\<open>[]byte\<close> is a byte list that may be \<^verbatim>\<open>nil\<close>: the source tests
  \<^verbatim>\<open>node.hash != nil\<close>, \<^verbatim>\<open>newKey != nil\<close>, \<^verbatim>\<open>start == nil\<close>, so \<^verbatim>\<open>nil\<close> is kept
  apart from the empty slice (\<open>None\<close> against \<open>Some []\<close>).
\<close>

type_synonym byte = "8 word"
type_synonym bytes = "byte list option"

definition the_bytes :: "bytes \<Rightarrow> byte list" where
  "the_bytes b = (case b of None \<Rightarrow> [] | Some xs \<Rightarrow> xs)"

text \<open>Go's \<^verbatim>\<open>bytes.Compare\<close>: lexicographic on unsigned bytes, \<^verbatim>\<open>nil\<close> read as empty.\<close>

fun compare_list :: "byte list \<Rightarrow> byte list \<Rightarrow> int" where
  "compare_list [] [] = 0"
| "compare_list [] (y # ys) = -1"
| "compare_list (x # xs) [] = 1"
| "compare_list (x # xs) (y # ys) =
     (if x < y then -1 else if y < x then 1 else compare_list xs ys)"

definition bytes_Compare :: "bytes \<Rightarrow> bytes \<Rightarrow> int" where
  "bytes_Compare a b = compare_list (the_bytes a) (the_bytes b)"

text \<open>Go's \<^verbatim>\<open>bytes.Equal\<close>: same length and same bytes, \<^verbatim>\<open>nil\<close> read as empty.\<close>

definition bytes_Equal :: "bytes \<Rightarrow> bytes \<Rightarrow> bool" where
  "bytes_Equal a b = (the_bytes a = the_bytes b)"

section \<open>Nodes\<close>

text \<open>
  \<^verbatim>\<open>type IAVLNode struct\<close>. The struct refers to itself through the two child
  pointers, so it is a datatype with one constructor; its selectors are the struct's
  fields (\<open>value'\<close> and \<open>size'\<close> for \<^verbatim>\<open>value\<close> and \<^verbatim>\<open>size\<close>). \<^verbatim>\<open>height\<close> is an
  \<^verbatim>\<open>int8\<close>, \<^verbatim>\<open>size\<close> a 64-bit \<^verbatim>\<open>int\<close>; both are read signed (\<open>sint\<close>).
  A child pointer is \<open>None\<close> when it is \<^verbatim>\<open>nil\<close>.
\<close>

datatype IAVLNode = IAVLNode
  (key: bytes)
  (value': bytes)
  (version: "64 word")
  (height: "8 word")
  (size': "64 word")
  (hash: bytes)
  (leftHash: bytes)
  (leftNode: "IAVLNode option")
  (rightHash: bytes)
  (rightNode: "IAVLNode option")
  (persisted: bool)

text \<open>Assignments to single fields of a node.\<close>

definition set_key :: "bytes \<Rightarrow> IAVLNode \<Rightarrow> IAVLNode" where
  "set_key k n = IAVLNode k (value' n) (version n) (height n) (size' n) (hash n)
     (leftHash n) (leftNode n) (rightHash n) (rightNode n) (persisted n)"

definition set_version :: "64 word \<Rightarrow> IAVLNode \<Rightarrow> IAVLNode" where
  "set_version v n = IAVLNode (key n) (value' n) v (height n) (size' n) (hash n)
     (leftHash n) (leftNode n) (rightHash n) (rightNode n) (persisted n)"

definition set_height_size :: "8 word \<Rightarrow> 64 word \<Rightarrow> IAVLNode \<Rightarrow> IAVLNode" where
  "set_height_size h s n = IAVLNode (key n) (value' n) (version n) h s (hash n)
     (leftHash n) (leftNode n) (rightHash n) (rightNode n) (persisted n)"

definition set_hash :: "bytes \<Rightarrow> IAVLNode \<Rightarrow> IAVLNode" where
  "set_hash h n = IAVLNode (key n) (value' n) (version n) (height n) (size' n) h
     (leftHash n) (leftNode n) (rightHash n) (rightNode n) (persisted n)"

definition set_left :: "bytes \<Rightarrow> IAVLNode option \<Rightarrow> IAVLNode \<Rightarrow> IAVLNode" where
  "set_left h c n = IAVLNode (key n) (value' n) (version n) (height n) (size' n) (hash n)
     h c (rightHash n) (rightNode n) (persisted n)"

definition set_right :: "bytes \<Rightarrow> IAVLNode option \<Rightarrow> IAVLNode \<Rightarrow> IAVLNode" where
  "set_right h c n = IAVLNode (key n) (value' n) (version n) (height n) (size' n) (hash n)
     (leftHash n) (leftNode n) h c (persisted n)"

definition set_persisted :: "bool \<Rightarrow> IAVLNode \<Rightarrow> IAVLNode" where
  "set_persisted p n = IAVLNode (key n) (value' n) (version n) (height n) (size' n) (hash n)
     (leftHash n) (leftNode n) (rightHash n) (rightNode n) p"

text \<open>\<^verbatim>\<open>NewIAVLNode\<close>: a leaf; the fields the literal leaves out are zero.\<close>

definition NewIAVLNode :: "bytes \<Rightarrow> bytes \<Rightarrow> IAVLNode" where
  "NewIAVLNode k v = IAVLNode k v 0 0 1 None None None None None False"

definition isLeaf :: "IAVLNode \<Rightarrow> bool" where
  "isLeaf node = (height node = 0)"

section \<open>Failures\<close>

text \<open>
  Every way the source stops without returning is a value: \<^verbatim>\<open>cmn.PanicSanity(msg)\<close>,
  the built-in \<^verbatim>\<open>panic(msg)\<close>, a run-time panic of Go itself (an index out of range,
  a \<^verbatim>\<open>nil\<close> dereference), a failure of the node store, and the \<^verbatim>\<open>err\<close> that
  \<^verbatim>\<open>MakeIAVLNode\<close> returns.
\<close>

datatype store_error = StoreMiss | CorruptNode

datatype wire_error = InsufficientData | VarintOverflow | InvalidLength

datatype error =
    PanicSanity string
  | Panic string
  | RuntimePanic string
  | StoreError store_error
  | DecodeError wire_error

section \<open>The tree handle and the node store\<close>

text \<open>
  Modelled from the spec: the types \<^verbatim>\<open>IAVLTree\<close> and \<^verbatim>\<open>nodeDB\<close> are declared outside
  \<^verbatim>\<open>iavl_node.go\<close>. The node code uses \<^verbatim>\<open>t.ndb\<close> (which may be \<^verbatim>\<open>nil\<close>),
  \<^verbatim>\<open>t.ndb.GetNode(hash)\<close> and \<^verbatim>\<open>t.ndb.RemoveNode(t, node)\<close>. Following section 6.1 of the
  spec, the store resolves a hash to a node or fails with \<open>StoreMiss\<close> or \<open>CorruptNode\<close>,
  the node it returns has \<^verbatim>\<open>persisted = true\<close> and its \<^verbatim>\<open>hash\<close> set to the lookup key,
  and \<^verbatim>\<open>RemoveNode\<close> is an orphan report, idempotent per hash. The content of the store
  is the parameter \<open>lookup\<close>; the reported hashes are collected in \<open>orphans\<close>.
\<close>

record nodeDB =
  lookup :: "bytes \<Rightarrow> store_error + IAVLNode"
  orphans :: "bytes list"

record IAVLTree =
  ndb :: "nodeDB option"

definition GetNode :: "IAVLTree \<Rightarrow> bytes \<Rightarrow> error + IAVLNode" where
  "GetNode t h =
     (case ndb t of
        None \<Rightarrow> Inl (RuntimePanic ''nil pointer dereference'')
      | Some db \<Rightarrow>
          (case lookup db h of
             Inl e \<Rightarrow> Inl (StoreError e)
           | Inr n \<Rightarrow> Inr (set_persisted True (set_hash h n))))"

definition RemoveNode :: "nodeDB \<Rightarrow> IAVLNode \<Rightarrow> nodeDB" where
  "RemoveNode db node = db\<lparr>orphans := List.insert (hash node) (orphans db)\<rparr>"

definition removeOrphan :: "IAVLTree \<Rightarrow> IAVLNode \<Rightarrow> IAVLTree" where
  "removeOrphan t node =
     (if \<not> persisted node then t
      else case ndb t of
             None \<Rightarrow> t
           | Some db \<Rightarrow> t\<lparr>ndb := Some (RemoveNode db node)\<rparr>)"

section \<open>Copying and loading\<close>

text \<open>
  \<^verbatim>\<open>_copy\<close>: the literal names every field but \<^verbatim>\<open>value\<close>, which stays \<^verbatim>\<open>nil\<close>.
\<close>

definition copy' :: "IAVLNode \<Rightarrow> error + IAVLNode" where
  "copy' node =
     (if isLeaf node then Inl (PanicSanity ''Why are you copying a value node?'')
      else Inr (IAVLNode (key node) None (version node) (height node) (size' node) None
                  (leftHash node) (leftNode node) (rightHash node) (rightNode node) False))"

definition getLeftNode :: "IAVLTree \<Rightarrow> IAVLNode \<Rightarrow> error + IAVLNode" where
  "getLeftNode t node =
     (case leftNode node of Some l \<Rightarrow> Inr l | None \<Rightarrow> GetNode t (leftHash node))"

definition getRightNode :: "IAVLTree \<Rightarrow> IAVLNode \<Rightarrow> error + IAVLNode" where
  "getRightNode t node =
     (case rightNode node of Some r \<Rightarrow> Inr r | None \<Rightarrow> GetNode t (rightHash node))"

section \<open>Height, size and balance\<close>

text \<open>
  Modelled from the spec: \<^verbatim>\<open>maxInt8\<close> is declared outside \<^verbatim>\<open>iavl_node.go\<close>; the spec
  gives the height as \<open>1 + max(leftHeight, rightHeight)\<close>, on signed 8-bit values.
\<close>

definition maxInt8 :: "8 word \<Rightarrow> 8 word \<Rightarrow> 8 word" where
  "maxInt8 a b = (if sint a > sint b then a else b)"

definition calcHeightAndSize :: "IAVLTree \<Rightarrow> IAVLNode \<Rightarrow> error + IAVLNode" where
  "calcHeightAndSize t node =
     (case getLeftNode t node of
        Inl e \<Rightarrow> Inl e
      | Inr l \<Rightarrow>
          (case getRightNode t node of
             Inl e \<Rightarrow> Inl e
           | Inr r \<Rightarrow>
               Inr (set_height_size (maxInt8 (height l) (height r) + 1)
                      (size' l + size' r) node)))"

definition calcBalance :: "IAVLTree \<Rightarrow> IAVLNode \<Rightarrow> error + int" where
  "calcBalance t node =
     (case getLeftNode t node of
        Inl e \<Rightarrow> Inl e
      | Inr l \<Rightarrow>
          (case getRightNode t node of
             Inl e \<Rightarrow> Inl e
           | Inr r \<Rightarrow> Inr (sint (height l) - sint (height r))))"

section \<open>Rotations and rebalancing\<close>

text \<open>
  \<^verbatim>\<open>rotateRight\<close> works on a copy of \<^verbatim>\<open>node\<close> and a copy \<^verbatim>\<open>_l\<close> of its left child.
  \<^verbatim>\<open>_l.rightNode\<close> points to the copy of \<^verbatim>\<open>node\<close>, which is changed after the pointer
  is stored; the value stored here is the copy after its last change. \<^verbatim>\<open>_l.rightHash\<close>
  is the copy's \<^verbatim>\<open>hash\<close> at the time of the assignment (\<^verbatim>\<open>nil\<close>).
\<close>

definition rotateRight :: "IAVLTree \<Rightarrow> IAVLNode \<Rightarrow> error + IAVLNode \<times> IAVLTree" where
  "rotateRight t node0 =
     (case copy' node0 of
        Inl e \<Rightarrow> Inl e
      | Inr node \<Rightarrow>
     (case getLeftNode t node of
        Inl e \<Rightarrow> Inl e
      | Inr l \<Rightarrow>
     (let t1 = removeOrphan t l in
      case copy' l of
        Inl e \<Rightarrow> Inl e
      | Inr l' \<Rightarrow>
     (let lrHash = rightHash l'; lrCached = rightNode l';
          node1 = set_left lrHash lrCached node in
      case calcHeightAndSize t1 node1 of
        Inl e \<Rightarrow> Inl e
      | Inr node2 \<Rightarrow>
     (case calcHeightAndSize t1 (set_right (hash node) (Some node2) l') of
        Inl e \<Rightarrow> Inl e
      | Inr l'' \<Rightarrow> Inr (l'', t1))))))"

definition rotateLeft :: "IAVLTree \<Rightarrow> IAVLNode \<Rightarrow> error + IAVLNode \<times> IAVLTree" where
  "rotateLeft t node0 =
     (case copy' node0 of
        Inl e \<Rightarrow> Inl e
      | Inr node \<Rightarrow>
     (case getRightNode t node of
        Inl e \<Rightarrow> Inl e
      | Inr r \<Rightarrow>
     (let t1 = removeOrphan t r in
      case copy' r of
        Inl e \<Rightarrow> Inl e
      | Inr r' \<Rightarrow>
     (let rlHash = leftHash r'; rlCached = leftNode r';
          node1 = set_right rlHash rlCached node in
      case calcHeightAndSize t1 node1 of
        Inl e \<Rightarrow> Inl e
      | Inr node2 \<Rightarrow>
     (case calcHeightAndSize t1 (set_left (hash node) (Some node2) r') of
        Inl e \<Rightarrow> Inl e
      | Inr r'' \<Rightarrow> Inr (r'', t1))))))"

definition balance :: "IAVLTree \<Rightarrow> IAVLNode \<Rightarrow> error + IAVLNode \<times> IAVLTree" where
  "balance t node =
     (if persisted node then Inl (Panic ''Unexpected balance() call on persisted node'')
      else case calcBalance t node of
        Inl e \<Rightarrow> Inl e
      | Inr b \<Rightarrow>
          if b > 1 then
            (case getLeftNode t node of
               Inl e \<Rightarrow> Inl e
             | Inr left \<Rightarrow>
            (case calcBalance t left of
               Inl e \<Rightarrow> Inl e
             | Inr lb \<Rightarrow>
                 if lb \<ge> 0 then rotateRight t node
                 else
                   (let t1 = removeOrphan t left in
                    case rotateLeft t1 left of
                      Inl e \<Rightarrow> Inl e
                    | Inr (left', t2) \<Rightarrow> rotateRight t2 (set_left None (Some left') node))))
          else if b < -1 then
            (case getRightNode t node of
               Inl e \<Rightarrow> Inl e
             | Inr right \<Rightarrow>
            (case calcBalance t right of
               Inl e \<Rightarrow> Inl e
             | Inr rb \<Rightarrow>
                 if rb \<le> 0 then rotateLeft t node
                 else
                   (let t1 = removeOrphan t right in
                    case rotateRight t1 right of
                      Inl e \<Rightarrow> Inl e
                    | Inr (right', t2) \<Rightarrow> rotateLeft t2 (set_right None (Some right') node))))
          else Inr (node, t))"

section \<open>Insertion\<close>

text \<open>
  \<^verbatim>\<open>set\<close> recurses into a child that may come from the node store, so the recursion
  is bounded by fuel: \<open>None\<close> is "out of fuel", \<open>Some (Inl e)\<close> a failure, \<open>Some (Inr r)\<close>
  a return. In the inner case the source appends \<^verbatim>\<open>node\<close> to \<^verbatim>\<open>orphaned\<close> and then
  assigns the recursive call's third result to \<^verbatim>\<open>orphaned\<close>; \<open>orphaned0\<close> is the list
  after the append, \<open>orphaned\<close> the one after the assignment.
\<close>

type_synonym set_result = "(IAVLNode \<times> bool \<times> IAVLNode list) \<times> IAVLTree"

definition set_finish ::
  "IAVLTree \<Rightarrow> IAVLNode \<Rightarrow> bool \<Rightarrow> IAVLNode list \<Rightarrow> error + set_result" where
  "set_finish t node updated orphaned =
     (if updated then Inr ((node, updated, orphaned), t)
      else case calcHeightAndSize t node of
        Inl e \<Rightarrow> Inl e
      | Inr node1 \<Rightarrow>
          (case balance t node1 of
             Inl e \<Rightarrow> Inl e
           | Inr (node2, t1) \<Rightarrow> Inr ((node2, updated, orphaned), t1)))"

fun set' :: "nat \<Rightarrow> IAVLTree \<Rightarrow> IAVLNode \<Rightarrow> bytes \<Rightarrow> bytes \<Rightarrow> (error + set_result) option" where
  "set' 0 t node0 k v = None"
| "set' (Suc fuel) t node0 k v =
     (if isLeaf node0 then
        (let c = bytes_Compare k (key node0) in
         if c = -1 then
           Some (Inr ((IAVLNode (key node0) None 0 1 2 None
                         None (Some (NewIAVLNode k v)) None (Some node0) False, False, []), t))
         else if c = 1 then
           Some (Inr ((IAVLNode k None 0 1 2 None
                         None (Some node0) None (Some (NewIAVLNode k v)) False, False, []), t))
         else Some (Inr ((NewIAVLNode k v, True, [node0]), t)))
      else
        (let orphaned0 = [] @ [node0] in
         case copy' node0 of
           Inl e \<Rightarrow> Some (Inl e)
         | Inr node \<Rightarrow>
             if bytes_Compare k (key node) < 0 then
               (case getLeftNode t node of
                  Inl e \<Rightarrow> Some (Inl e)
                | Inr l \<Rightarrow>
                    (case set' fuel t l k v of
                       None \<Rightarrow> None
                     | Some (Inl e) \<Rightarrow> Some (Inl e)
                     | Some (Inr ((l', updated, orphaned), t1)) \<Rightarrow>
                         Some (set_finish t1 (set_left None (Some l') node) updated orphaned)))
             else
               (case getRightNode t node of
                  Inl e \<Rightarrow> Some (Inl e)
                | Inr r \<Rightarrow>
                    (case set' fuel t r k v of
                       None \<Rightarrow> None
                     | Some (Inl e) \<Rightarrow> Some (Inl e)
                     | Some (Inr ((r', updated, orphaned), t1)) \<Rightarrow>
                         Some (set_finish t1 (set_right None (Some r') node) updated orphaned)))))"

section \<open>Deletion\<close>

text \<open>
  \<^verbatim>\<open>remove\<close> returns \<^verbatim>\<open>(newHash, newNode, newKey, value, removed)\<close>; the tree handle is
  returned too, since \<^verbatim>\<open>removeOrphan\<close> writes to the node store.
\<close>

type_synonym remove_result =
  "(bytes \<times> IAVLNode option \<times> bytes \<times> bytes \<times> bool) \<times> IAVLTree"

definition remove_rebalance ::
  "IAVLTree \<Rightarrow> IAVLNode \<Rightarrow> bytes \<Rightarrow> bytes \<Rightarrow> error + remove_result" where
  "remove_rebalance t node newKey v =
     (case calcHeightAndSize t node of
        Inl e \<Rightarrow> Inl e
      | Inr node1 \<Rightarrow>
          (case balance t node1 of
             Inl e \<Rightarrow> Inl e
           | Inr (node2, t1) \<Rightarrow> Inr ((hash node2, Some node2, newKey, v, True), t1)))"

fun remove' :: "nat \<Rightarrow> IAVLTree \<Rightarrow> IAVLNode \<Rightarrow> bytes \<Rightarrow> (error + remove_result) option" where
  "remove' 0 t node k = None"
| "remove' (Suc fuel) t node k =
     (if isLeaf node then
        (if bytes_Equal k (key node) then
           Some (Inr ((None, None, None, value' node, True), removeOrphan t node))
         else Some (Inr ((hash node, Some node, None, None, False), t)))
      else if bytes_Compare k (key node) < 0 then
        (case getLeftNode t node of
           Inl e \<Rightarrow> Some (Inl e)
         | Inr l \<Rightarrow>
             (case remove' fuel t l k of
                None \<Rightarrow> None
              | Some (Inl e) \<Rightarrow> Some (Inl e)
              | Some (Inr ((newLeftHash, newLeftNode, newKey, v, removed), t1)) \<Rightarrow>
                  if \<not> removed then Some (Inr ((hash node, Some node, None, v, False), t1))
                  else if newLeftHash = None \<and> newLeftNode = None then
                    Some (Inr ((rightHash node, rightNode node, key node, v, True), t1))
                  else
                    (let t2 = removeOrphan t1 node in
                     case copy' node of
                       Inl e \<Rightarrow> Some (Inl e)
                     | Inr node1 \<Rightarrow>
                         Some (remove_rebalance t2 (set_left newLeftHash newLeftNode node1)
                                 newKey v))))
      else
        (case getRightNode t node of
           Inl e \<Rightarrow> Some (Inl e)
         | Inr r \<Rightarrow>
             (case remove' fuel t r k of
                None \<Rightarrow> None
              | Some (Inl e) \<Rightarrow> Some (Inl e)
              | Some (Inr ((newRightHash, newRightNode, newKey, v, removed), t1)) \<Rightarrow>
                  if \<not> removed then Some (Inr ((hash node, Some node, None, v, False), t1))
                  else if newRightHash = None \<and> newRightNode = None then
                    Some (Inr ((leftHash node, leftNode node, None, v, True), t1))
                  else
                    (let t2 = removeOrphan t1 node in
                     case copy' node of
                       Inl e \<Rightarrow> Some (Inl e)
                     | Inr node1 \<Rightarrow>
                         (let node2 = set_right newRightHash newRightNode node1;
                              node3 = (if newKey \<noteq> None then set_key newKey node2 else node2)
                          in Some (remove_rebalance t2 node3 None v))))))"

section \<open>Lookup\<close>

fun has :: "nat \<Rightarrow> IAVLTree \<Rightarrow> IAVLNode \<Rightarrow> bytes \<Rightarrow> (error + bool) option" where
  "has 0 t node k = None"
| "has (Suc fuel) t node k =
     (if bytes_Equal (key node) k then Some (Inr True)
      else if isLeaf node then Some (Inr False)
      else if bytes_Compare k (key node) < 0 then
        (case getLeftNode t node of
           Inl e \<Rightarrow> Some (Inl e)
         | Inr l \<Rightarrow> has fuel t l k)
      else
        (case getRightNode t node of
           Inl e \<Rightarrow> Some (Inl e)
         | Inr r \<Rightarrow> has fuel t r k))"

section \<open>Traversal\<close>

text \<open>
  The callback \<^verbatim>\<open>cb func(*IAVLNode) bool\<close> is a closure: it may change state of its own
  at every call. It is a function from its state and the node to its answer and its new
  state, and the traversal threads that state, so the calls made and their order are
  part of the result.
\<close>

type_synonym 's callback = "'s \<Rightarrow> IAVLNode \<Rightarrow> bool \<times> 's"

fun traverseInRange ::
  "nat \<Rightarrow> IAVLTree \<Rightarrow> IAVLNode \<Rightarrow> bytes \<Rightarrow> bytes \<Rightarrow> bool \<Rightarrow> bool \<Rightarrow> 's callback \<Rightarrow> 's
     \<Rightarrow> (error + bool \<times> 's) option" where
  "traverseInRange 0 t node start end' ascending inclusive cb s = None"
| "traverseInRange (Suc fuel) t node start end' ascending inclusive cb s =
     (let afterStart = (start = None \<or> bytes_Compare start (key node) \<le> 0);
          beforeEnd0 = (end' = None \<or> bytes_Compare (key node) end' < 0);
          beforeEnd = (if inclusive then (end' = None \<or> bytes_Compare (key node) end' \<le> 0)
                       else beforeEnd0);
          (stop, s1) = (if afterStart \<and> beforeEnd then cb s node else (False, s))
      in
      if stop then Some (Inr (stop, s1))
      else if isLeaf node then Some (Inr (stop, s1))
      else if ascending then
        (case (if afterStart then
                 (case getLeftNode t node of
                    Inl e \<Rightarrow> Some (Inl e)
                  | Inr l \<Rightarrow> traverseInRange fuel t l start end' ascending inclusive cb s1)
               else Some (Inr (stop, s1))) of
           None \<Rightarrow> None
         | Some (Inl e) \<Rightarrow> Some (Inl e)
         | Some (Inr (stop2, s2)) \<Rightarrow>
             if stop2 then Some (Inr (stop2, s2))
             else if beforeEnd then
               (case getRightNode t node of
                  Inl e \<Rightarrow> Some (Inl e)
                | Inr r \<Rightarrow> traverseInRange fuel t r start end' ascending inclusive cb s2)
             else Some (Inr (stop2, s2)))
      else
        (case (if beforeEnd then
                 (case getRightNode t node of
                    Inl e \<Rightarrow> Some (Inl e)
                  | Inr r \<Rightarrow> traverseInRange fuel t r start end' ascending inclusive cb s1)
               else Some (Inr (stop, s1))) of
           None \<Rightarrow> None
         | Some (Inl e) \<Rightarrow> Some (Inl e)
         | Some (Inr (stop2, s2)) \<Rightarrow>
             if stop2 then Some (Inr (stop2, s2))
             else if afterStart then
               (case getLeftNode t node of
                  Inl e \<Rightarrow> Some (Inl e)
                | Inr l \<Rightarrow> traverseInRange fuel t l start end' ascending inclusive cb s2)
             else Some (Inr (stop2, s2))))"

definition traverse ::
  "nat \<Rightarrow> IAVLTree \<Rightarrow> IAVLNode \<Rightarrow> bool \<Rightarrow> 's callback \<Rightarrow> 's \<Rightarrow> (error + bool \<times> 's) option" where
  "traverse fuel t node ascending cb s =
     traverseInRange fuel t node None None ascending False cb s"

section \<open>The wire codec\<close>

text \<open>
  Modelled from the spec: the primitives \<^verbatim>\<open>wire.WriteInt8\<close>, \<^verbatim>\<open>wire.WriteVarint\<close>,
  \<^verbatim>\<open>wire.WriteUint64\<close>, \<^verbatim>\<open>wire.WriteByteSlice\<close>, \<^verbatim>\<open>wire.GetVarint\<close>,
  \<^verbatim>\<open>wire.GetUint64\<close> and \<^verbatim>\<open>wire.GetByteSlice\<close> belong to a library that is not part of
  the source file. Section 4.4 of the spec names them: a fixed-width signed 8-bit integer,
  a variable-length signed integer (zig-zag, then groups of seven bits with a continuation
  bit, as in LEB128), a fixed-width unsigned 64-bit integer (big-endian), and a
  length-prefixed byte slice (variable-length length, then the raw bytes). The writers
  append to a \<^verbatim>\<open>bytes.Buffer\<close>, which never fails, so each returns the bytes it appends.
  The readers return the value and the number of bytes read, or an error; the source
  calls \<^verbatim>\<open>wire.GetUint64\<close> with no error result and then slices \<^verbatim>\<open>buf[8:]\<close>, which
  panics in Go on fewer than eight bytes.
\<close>

definition WriteInt8 :: "8 word \<Rightarrow> byte list" where
  "WriteInt8 i = [i]"

definition zigzag :: "int \<Rightarrow> nat" where
  "zigzag i = (if i < 0 then nat (- 2 * i - 1) else nat (2 * i))"

definition unzigzag :: "nat \<Rightarrow> int" where
  "unzigzag n = (if even n then int (n div 2) else - int (n div 2) - 1)"

function leb128 :: "nat \<Rightarrow> byte list" where
  "leb128 n = (if n < 128 then [of_nat n] else of_nat (128 + n mod 128) # leb128 (n div 128))"
  by pat_completeness auto
termination
  by (relation "measure id") auto

declare leb128.simps [simp del]

fun unleb128 :: "byte list \<Rightarrow> (nat \<times> nat) option" where
  "unleb128 [] = None"
| "unleb128 (b # bs) =
     (if b < 128 then Some (unat b, 1)
      else case unleb128 bs of
             None \<Rightarrow> None
           | Some (m, k) \<Rightarrow> Some (unat b - 128 + 128 * m, Suc k))"

definition WriteVarint :: "64 word \<Rightarrow> byte list" where
  "WriteVarint i = leb128 (zigzag (sint i))"

definition GetVarint :: "byte list \<Rightarrow> wire_error + 64 word \<times> nat" where
  "GetVarint buf =
     (case unleb128 buf of
        None \<Rightarrow> Inl InsufficientData
      | Some (m, k) \<Rightarrow>
          if m < 2 ^ 64 then Inr (word_of_int (unzigzag m), k) else Inl VarintOverflow)"

fun be_bytes :: "nat \<Rightarrow> nat \<Rightarrow> byte list" where
  "be_bytes 0 n = []"
| "be_bytes (Suc k) n = be_bytes k (n div 256) @ [of_nat (n mod 256)]"

definition be_nat :: "byte list \<Rightarrow> nat" where
  "be_nat bs = foldl (\<lambda>a b. 256 * a + unat b) 0 bs"

definition WriteUint64 :: "64 word \<Rightarrow> byte list" where
  "WriteUint64 v = be_bytes 8 (unat v)"

definition GetUint64 :: "byte list \<Rightarrow> error + 64 word" where
  "GetUint64 buf =
     (if length buf < 8 then Inl (RuntimePanic ''index out of range'')
      else Inr (of_nat (be_nat (take 8 buf))))"

definition WriteByteSlice :: "bytes \<Rightarrow> byte list" where
  "WriteByteSlice b = WriteVarint (of_nat (length (the_bytes b))) @ the_bytes b"

definition GetByteSlice :: "byte list \<Rightarrow> wire_error + bytes \<times> nat" where
  "GetByteSlice buf =
     (case GetVarint buf of
        Inl e \<Rightarrow> Inl e
      | Inr (len, n) \<Rightarrow>
          if sint len < 0 then Inl InvalidLength
          else if length buf < n + nat (sint len) then Inl InsufficientData
          else Inr (Some (take (nat (sint len)) (drop n buf)), n + nat (sint len)))"

section \<open>Store-bytes: encoding and decoding\<close>

text \<open>
  \<^verbatim>\<open>writeBytes\<close> returns the bytes written and their number \<^verbatim>\<open>n\<close>, or panics on an
  inner node with a \<^verbatim>\<open>nil\<close> child hash.
\<close>

definition writeBytes :: "IAVLNode \<Rightarrow> error + byte list \<times> int" where
  "writeBytes node =
     (let header = WriteInt8 (height node) @ WriteVarint (size' node)
                     @ WriteByteSlice (key node) @ WriteUint64 (version node)
      in
      if isLeaf node then
        (let buf = header @ WriteByteSlice (value' node) in Inr (buf, int (length buf)))
      else if leftHash node = None then
        Inl (PanicSanity ''node.leftHash was nil in writeBytes'')
      else if rightHash node = None then
        Inl (PanicSanity ''node.rightHash was nil in writeBytes'')
      else
        (let buf = header @ WriteByteSlice (leftHash node) @ WriteByteSlice (rightHash node)
         in Inr (buf, int (length buf))))"

text \<open>
  \<^verbatim>\<open>MakeIAVLNode\<close>: \<^verbatim>\<open>buf[0]\<close> on an empty slice is an index out of range. An
  \<^verbatim>\<open>err\<close> of the codec is returned to the caller (\<open>DecodeError\<close>).
\<close>

definition MakeIAVLNode :: "byte list \<Rightarrow> error + IAVLNode" where
  "MakeIAVLNode buf0 =
     (case buf0 of
        [] \<Rightarrow> Inl (RuntimePanic ''index out of range'')
      | h # buf1 \<Rightarrow>
     (case GetVarint buf1 of
        Inl e \<Rightarrow> Inl (DecodeError e)
      | Inr (sz, n1) \<Rightarrow>
     (let buf2 = drop n1 buf1 in
      case GetByteSlice buf2 of
        Inl e \<Rightarrow> Inl (DecodeError e)
      | Inr (k, n2) \<Rightarrow>
     (let buf3 = drop n2 buf2 in
      case GetUint64 buf3 of
        Inl e \<Rightarrow> Inl e
      | Inr ver \<Rightarrow>
     (let buf4 = drop 8 buf3;
          node = IAVLNode k None ver h sz None None None None None False
      in
      if isLeaf node then
        (case GetByteSlice buf4 of
           Inl e \<Rightarrow> Inl (DecodeError e)
         | Inr (v, n3) \<Rightarrow> Inr (IAVLNode k v ver h sz None None None None None False))
      else
        (case GetByteSlice buf4 of
           Inl e \<Rightarrow> Inl (DecodeError e)
         | Inr (lh, n3) \<Rightarrow>
        (let buf5 = drop n3 buf4 in
         case GetByteSlice buf5 of
           Inl e \<Rightarrow> Inl (DecodeError e)
         | Inr (rh, n4) \<Rightarrow>
             Inr (IAVLNode k None ver h sz None lh None rh None False))))))))"

section \<open>The digest\<close>

text \<open>
  Modelled from the spec: the digest is RIPEMD-160 (section 4.4.4 of the spec); the
  package \<^verbatim>\<open>ripemd160\<close> is not part of the source file. The definition follows the
  published algorithm: two lines of five rounds of sixteen steps over each 64-byte
  block, little-endian words, and the padding of MD4. The theorems \<open>ripemd160_empty\<close>
  and \<open>ripemd160_abc\<close> below check it against the test vectors of the algorithm's
  authors.
\<close>

type_synonym u32 = "32 word"
type_synonym rmd_state = "u32 \<times> u32 \<times> u32 \<times> u32 \<times> u32"

definition rol :: "nat \<Rightarrow> u32 \<Rightarrow> u32" where
  "rol s x = push_bit s x OR drop_bit (32 - s) x"

definition rmd_f0 :: "u32 \<Rightarrow> u32 \<Rightarrow> u32 \<Rightarrow> u32" where
  "rmd_f0 x y z = x XOR y XOR z"

definition rmd_f1 :: "u32 \<Rightarrow> u32 \<Rightarrow> u32 \<Rightarrow> u32" where
  "rmd_f1 x y z = (x AND y) OR (NOT x AND z)"

definition rmd_f2 :: "u32 \<Rightarrow> u32 \<Rightarrow> u32 \<Rightarrow> u32" where
  "rmd_f2 x y z = (x OR NOT y) XOR z"

definition rmd_f3 :: "u32 \<Rightarrow> u32 \<Rightarrow> u32 \<Rightarrow> u32" where
  "rmd_f3 x y z = (x AND z) OR (y AND NOT z)"

definition rmd_f4 :: "u32 \<Rightarrow> u32 \<Rightarrow> u32 \<Rightarrow> u32" where
  "rmd_f4 x y z = x XOR (y OR NOT z)"

fun rmd_steps ::
  "(u32 \<Rightarrow> u32 \<Rightarrow> u32 \<Rightarrow> u32) \<Rightarrow> u32 \<Rightarrow> u32 list \<Rightarrow> (nat \<times> nat) list \<Rightarrow> rmd_state \<Rightarrow> rmd_state" where
  "rmd_steps f K X [] st = st"
| "rmd_steps f K X ((r, s) # rs) (A, B, C, D, E) =
     rmd_steps f K X rs (E, rol s (A + f B C D + X ! r + K) + E, B, rol 10 C, D)"

definition rmd_left :: "u32 list \<Rightarrow> rmd_state \<Rightarrow> rmd_state" where
  "rmd_left X st =
    rmd_steps rmd_f4 0xA953FD4E X
      (zip [4, 0, 5, 9, 7, 12, 2, 10, 14, 1, 3, 8, 11, 6, 15, 13]
           [9, 15, 5, 11, 6, 8, 13, 12, 5, 12, 13, 14, 11, 8, 5, 6])
   (rmd_steps rmd_f3 0x8F1BBCDC X
      (zip [1, 9, 11, 10, 0, 8, 12, 4, 13, 3, 7, 15, 14, 5, 6, 2]
           [11, 12, 14, 15, 14, 15, 9, 8, 9, 14, 5, 6, 8, 6, 5, 12])
   (rmd_steps rmd_f2 0x6ED9EBA1 X
      (zip [3, 10, 14, 4, 9, 15, 8, 1, 2, 7, 0, 6, 13, 11, 5, 12]
           [11, 13, 6, 7, 14, 9, 13, 15, 14, 8, 13, 6, 5, 12, 7, 5])
   (rmd_steps rmd_f1 0x5A827999 X
      (zip [7, 4, 13, 1, 10, 6, 15, 3, 12, 0, 9, 5, 2, 14, 11, 8]
           [7, 6, 8, 13, 11, 9, 7, 15, 7, 12, 15, 9, 11, 7, 13, 12])
   (rmd_steps rmd_f0 0x00000000 X
      (zip [0, 1, 2, 3, 4, 5, 6, 7, 8, 9, 10, 11, 12, 13, 14, 15]
           [11, 14, 15, 12, 5, 8, 7, 9, 11, 13, 14, 15, 6, 7, 9, 8]) st))))"

definition rmd_right :: "u32 list \<Rightarrow> rmd_state \<Rightarrow> rmd_state" where
  "rmd_right X st =
    rmd_steps rmd_f0 0x00000000 X
      (zip [12, 15, 10, 4, 1, 5, 8, 7, 6, 2, 13, 14, 0, 3, 9, 11]
           [8, 5, 12, 9, 12, 5, 14, 6, 8, 13, 6, 5, 15, 13, 11, 11])
   (rmd_steps rmd_f1 0x7A6D76E9 X
      (zip [8, 6, 4, 1, 3, 11, 15, 0, 5, 12, 2, 13, 9, 7, 10, 14]
           [15, 5, 8, 11, 14, 14, 6, 14, 6, 9, 12, 9, 12, 5, 15, 8])
   (rmd_steps rmd_f2 0x6D703EF3 X
      (zip [15, 5, 1, 3, 7, 14, 6, 9, 11, 8, 12, 2, 10, 0, 4, 13]
           [9, 7, 15, 11, 8, 6, 6, 14, 12, 13, 5, 14, 13, 13, 7, 5])
   (rmd_steps rmd_f3 0x5C4DD124 X
      (zip [6, 11, 3, 7, 0, 13, 5, 10, 14, 15, 8, 12, 4, 9, 1, 2]
           [9, 13, 15, 7, 12, 8, 9, 11, 7, 7, 12, 7, 6, 15, 13, 11])
   (rmd_steps rmd_f4 0x50A28BE6 X
      (zip [5, 14, 7, 0, 9, 2, 11, 4, 13, 6, 15, 8, 1, 10, 3, 12]
           [8, 9, 9, 11, 13, 15, 15, 5, 7, 7, 8, 11, 14, 14, 12, 6]) st))))"

definition rmd_compress :: "rmd_state \<Rightarrow> u32 list \<Rightarrow> rmd_state" where
  "rmd_compress h X =
    (case h of (h0, h1, h2, h3, h4) \<Rightarrow>
     case rmd_left X h of (A, B, C, D, E) \<Rightarrow>
     case rmd_right X h of (A', B', C', D', E') \<Rightarrow>
       (h1 + C + D', h2 + D + E', h3 + E + A', h4 + A + B', h0 + B + C'))"

fun le_word :: "byte list \<Rightarrow> u32" where
  "le_word [] = 0"
| "le_word (b # bs) = ucast b OR push_bit 8 (le_word bs)"

fun rmd_words :: "nat \<Rightarrow> byte list \<Rightarrow> u32 list" where
  "rmd_words 0 bs = []"
| "rmd_words (Suc n) bs = le_word (take 4 bs) # rmd_words n (drop 4 bs)"

definition le_bytes32 :: "u32 \<Rightarrow> byte list" where
  "le_bytes32 x = [ucast x, ucast (drop_bit 8 x), ucast (drop_bit 16 x), ucast (drop_bit 24 x)]"

definition le_bytes64 :: "64 word \<Rightarrow> byte list" where
  "le_bytes64 x = map (\<lambda>i. ucast (drop_bit (8 * i) x)) [0, 1, 2, 3, 4, 5, 6, 7]"

definition rmd_pad :: "byte list \<Rightarrow> byte list" where
  "rmd_pad m = m @ [0x80] @ replicate ((119 - length m mod 64) mod 64) 0
                 @ le_bytes64 (push_bit 3 (of_nat (length m)))"

fun rmd_blocks :: "nat \<Rightarrow> rmd_state \<Rightarrow> byte list \<Rightarrow> rmd_state" where
  "rmd_blocks 0 h bs = h"
| "rmd_blocks (Suc n) h bs =
     rmd_blocks n (rmd_compress h (rmd_words 16 (take 64 bs))) (drop 64 bs)"

definition ripemd160 :: "byte list \<Rightarrow> byte list" where
  "ripemd160 m =
    (let p = rmd_pad m in
     case rmd_blocks (length p div 64)
            (0x67452301, 0xEFCDAB89, 0x98BADCFE, 0x10325476, 0xC3D2E1F0) p of
       (h0, h1, h2, h3, h4) \<Rightarrow> concat (map le_bytes32 [h0, h1, h2, h3, h4]))"

section \<open>Hash-bytes and hashing\<close>

text \<open>
  \<^verbatim>\<open>hashWithCount\<close> and \<^verbatim>\<open>writeHashBytes\<close> call each other, and recurse only into
  children that are in memory, so the recursion is on the structure of the node. Both
  write \<^verbatim>\<open>hash\<close>, \<^verbatim>\<open>leftHash\<close> and \<^verbatim>\<open>rightHash\<close> into the nodes they visit: each returns
  the node as it is after the call. \<^verbatim>\<open>writeHashBytes\<close> returns the bytes written to
  \<^verbatim>\<open>w\<close>, their number \<^verbatim>\<open>n\<close> and \<^verbatim>\<open>hashCount\<close>.
\<close>

fun hashWithCount :: "IAVLNode \<Rightarrow> error + bytes \<times> int \<times> IAVLNode"
and writeHashBytes :: "IAVLNode \<Rightarrow> error + byte list \<times> int \<times> int \<times> IAVLNode" where
  "hashWithCount (IAVLNode k v ver h sz hs lh ln rh rn p) =
     (if hs \<noteq> None then Inr (hs, 0, IAVLNode k v ver h sz hs lh ln rh rn p)
      else case writeHashBytes (IAVLNode k v ver h sz hs lh ln rh rn p) of
        Inl e \<Rightarrow> Inl e
      | Inr (buf, n, hashCount, node1) \<Rightarrow>
          (let hs1 = Some (ripemd160 buf) in Inr (hs1, hashCount + 1, set_hash hs1 node1)))"
| "writeHashBytes (IAVLNode k v ver h sz hs lh ln rh rn p) =
     (let buf0 = WriteInt8 h @ WriteVarint sz in
      if h = 0 then
        (let buf = buf0 @ WriteByteSlice k @ WriteByteSlice v @ WriteUint64 ver
         in Inr (buf, int (length buf), 0, IAVLNode k v ver h sz hs lh ln rh rn p))
      else
       (case (case ln of
                None \<Rightarrow> Inr (lh, ln, 0)
              | Some l \<Rightarrow>
                  (case hashWithCount l of
                     Inl e \<Rightarrow> Inl e
                   | Inr (lhash, leftCount, l1) \<Rightarrow> Inr (lhash, Some l1, leftCount))) of
          Inl e \<Rightarrow> Inl e
        | Inr (lh1, ln1, c1) \<Rightarrow>
            if lh1 = None then Inl (PanicSanity ''node.leftHash was nil in writeHashBytes'')
            else
             (case (case rn of
                      None \<Rightarrow> Inr (rh, rn, 0)
                    | Some r \<Rightarrow>
                        (case hashWithCount r of
                           Inl e \<Rightarrow> Inl e
                         | Inr (rhash, rightCount, r1) \<Rightarrow>
                             Inr (rhash, Some r1, rightCount))) of
                Inl e \<Rightarrow> Inl e
              | Inr (rh1, rn1, c2) \<Rightarrow>
                  if rh1 = None then
                    Inl (PanicSanity ''node.rightHash was nil in writeHashBytes'')
                  else
                    (let buf = buf0 @ WriteByteSlice lh1 @ WriteByteSlice rh1
                     in Inr (buf, int (length buf), c1 + c2,
                             IAVLNode k v ver h sz hs lh1 ln1 rh1 rn1 p)))))"

section \<open>Operations on a tree that starts empty\<close>

text \<open>
  Modelled from the spec: the methods that own the root (\<^verbatim>\<open>IAVLTree.Set\<close> and
  \<^verbatim>\<open>IAVLTree.Remove\<close>) are not part of the source file. Scenario S1 of the spec: a set on
  the empty tree yields a single leaf; every later set is \<^verbatim>\<open>set\<close> on the root, whose
  first result is the new root. Section 4.3.2 of the spec: a remove that does not find
  the key leaves the tree unchanged; otherwise the new root is the node that \<^verbatim>\<open>remove\<close>
  returns, loaded through the node store when only its hash is returned, and the tree is
  empty when neither node nor hash is returned. \<open>fuel\<close> bounds each call of \<^verbatim>\<open>set\<close> and
  \<^verbatim>\<open>remove\<close>.
\<close>

datatype tree_op = OpSet bytes bytes | OpRemove bytes

fun apply_ops ::
  "nat \<Rightarrow> IAVLTree \<Rightarrow> IAVLNode option \<Rightarrow> tree_op list
     \<Rightarrow> (error + IAVLNode option \<times> IAVLTree) option" where
  "apply_ops fuel t root [] = Some (Inr (root, t))"
| "apply_ops fuel t None (OpSet k v # ops) = apply_ops fuel t (Some (NewIAVLNode k v)) ops"
| "apply_ops fuel t (Some n) (OpSet k v # ops) =
     (case set' fuel t n k v of
        None \<Rightarrow> None
      | Some (Inl e) \<Rightarrow> Some (Inl e)
      | Some (Inr ((n', updated, orphaned), t1)) \<Rightarrow> apply_ops fuel t1 (Some n') ops)"
| "apply_ops fuel t None (OpRemove k # ops) = apply_ops fuel t None ops"
| "apply_ops fuel t (Some n) (OpRemove k # ops) =
     (case remove' fuel t n k of
        None \<Rightarrow> None
      | Some (Inl e) \<Rightarrow> Some (Inl e)
      | Some (Inr ((newHash, newNode, newKey, v, removed), t1)) \<Rightarrow>
          if \<not> removed then apply_ops fuel t1 (Some n) ops
          else
            (case newNode of
               Some n' \<Rightarrow> apply_ops fuel t1 (Some n') ops
             | None \<Rightarrow>
                 if newHash = None then apply_ops fuel t1 None ops
                 else
                   (case GetNode t1 newHash of
                      Inl e \<Rightarrow> Some (Inl e)
                    | Inr n' \<Rightarrow> apply_ops fuel t1 (Some n') ops)))"

text \<open>
  The root hash after a list of operations on the empty tree (\<open>Inr None\<close> for the
  empty tree, which has no root to hash).
\<close>

definition root_hash :: "nat \<Rightarrow> tree_op list \<Rightarrow> (error + bytes) option" where
  "root_hash fuel ops =
     (case apply_ops fuel \<lparr>ndb = None\<rparr> None ops of
        None \<Rightarrow> None
      | Some (Inl e) \<Rightarrow> Some (Inl e)
      | Some (Inr (None, t)) \<Rightarrow> Some (Inr None)
      | Some (Inr (Some r, t)) \<Rightarrow>
          (case hashWithCount r of
             Inl e \<Rightarrow> Some (Inl e)
           | Inr (h, c, r1) \<Rightarrow> Some (Inr h)))"

section \<open>Leaves and separators\<close>

text \<open>
  The entries of a tree whose nodes are all in memory, in order: the final key-to-value
  mapping. A child that is not in memory contributes nothing.
\<close>

fun leaves :: "IAVLNode \<Rightarrow> (byte list \<times> byte list) list" where
  "leaves (IAVLNode k v ver h sz hs lh ln rh rn p) =
     (if h = 0 then [(the_bytes k, the_bytes v)]
      else (case ln of None \<Rightarrow> [] | Some l \<Rightarrow> leaves l)
         @ (case rn of None \<Rightarrow> [] | Some r \<Rightarrow> leaves r))"

definition smallest :: "byte list \<Rightarrow> byte list list \<Rightarrow> bool" where
  "smallest k ks = (k \<in> set ks \<and> (\<forall>x \<in> set ks. compare_list k x \<le> 0))"

text \<open>
  The invariant of section 3.1 of the spec on separators: the key of every inner node is
  the smallest key of its right subtree.
\<close>

fun separators_ok :: "IAVLNode \<Rightarrow> bool" where
  "separators_ok (IAVLNode k v ver h sz hs lh ln rh rn p) =
     (h = 0 \<or>
      (case ln of
         None \<Rightarrow> False
       | Some l \<Rightarrow>
           (case rn of
              None \<Rightarrow> False
            | Some r \<Rightarrow>
                separators_ok l \<and> separators_ok r
                \<and> smallest (the_bytes k) (map fst (leaves r)))))"

section \<open>Trees as set and remove build them\<close>

text \<open>
  A tree that has only been through \<^verbatim>\<open>set\<close> and \<^verbatim>\<open>remove\<close> since it was empty: no node
  has a cached hash, every child is in memory, a leaf has size 1, and an inner node has
  the height and the size that \<^verbatim>\<open>calcHeightAndSize\<close> gives it.
\<close>

fun fresh :: "IAVLNode \<Rightarrow> bool" where
  "fresh (IAVLNode k v ver h sz hs lh ln rh rn p) =
     (hs = None \<and>
      (if h = 0 then sz = 1
       else (case ln of
               None \<Rightarrow> False
             | Some l \<Rightarrow>
                 (case rn of
                    None \<Rightarrow> False
                  | Some r \<Rightarrow>
                      fresh l \<and> fresh r \<and> h = maxInt8 (height l) (height r) + 1
                      \<and> sz = size' l + size' r))))"

text \<open>
  The shape of a tree together with its entries: the leaves with key, value and
  version, and how the inner nodes group them. \<open>None\<close> where a child is not in memory.
\<close>

datatype shape = Entry "byte list" "byte list" "64 word" | Fork shape shape

fun shape_of :: "IAVLNode \<Rightarrow> shape option" where
  "shape_of (IAVLNode k v ver h sz hs lh ln rh rn p) =
     (if h = 0 then Some (Entry (the_bytes k) (the_bytes v) ver)
      else (case ln of
              None \<Rightarrow> None
            | Some l \<Rightarrow>
                (case rn of
                   None \<Rightarrow> None
                 | Some r \<Rightarrow>
                     (case shape_of l of
                        None \<Rightarrow> None
                      | Some sl \<Rightarrow>
                          (case shape_of r of
                             None \<Rightarrow> None
                           | Some sr \<Rightarrow> Some (Fork sl sr))))))"

text \<open>
  The number of inner nodes on the longest path from a node down to a leaf, counted on
  the nodes in memory. The field \<^verbatim>\<open>height\<close> is an \<^verbatim>\<open>int8\<close>: it agrees with this number as
  long as the number is at most 127.
\<close>

fun depth :: "IAVLNode \<Rightarrow> nat" where
  "depth (IAVLNode k v ver h sz hs lh ln rh rn p) =
     (if h = 0 then 0
      else Suc (max (case ln of None \<Rightarrow> 0 | Some l \<Rightarrow> depth l)
                    (case rn of None \<Rightarrow> 0 | Some r \<Rightarrow> depth r)))"

text \<open>
  A tree is its root, or nothing when it is empty. Two trees have the same shape when
  both are empty or both roots have the same shape and entries.
\<close>

definition fresh_tree :: "IAVLNode option \<Rightarrow> bool" where
  "fresh_tree root = (case root of None \<Rightarrow> True | Some n \<Rightarrow> fresh n)"

definition same_shape :: "IAVLNode option \<Rightarrow> IAVLNode option \<Rightarrow> bool" where
  "same_shape root1 root2 =
     (case root1 of
        None \<Rightarrow> root2 = None
      | Some n \<Rightarrow> (case root2 of None \<Rightarrow> False | Some m \<Rightarrow> shape_of n = shape_of m))"

section \<open>What the digest reads\<close>

text \<open>
  The part of a node that \<^verbatim>\<open>hashWithCount\<close> reads: a cached hash; or, for a leaf,
  height, size, key, value and version; or, for an inner node, height, size and what
  it reads of each child (the child in memory, else the child hash). The separator key,
  the version and the value of an inner node, and \<^verbatim>\<open>persisted\<close>, are not in it.
\<close>

datatype digest_input =
    Cached bytes
  | LeafInput "8 word" "64 word" "byte list" "byte list" "64 word"
  | InnerInput "8 word" "64 word" digest_input digest_input

fun digest_input_of :: "IAVLNode \<Rightarrow> digest_input" where
  "digest_input_of (IAVLNode k v ver h sz hs lh ln rh rn p) =
     (if hs \<noteq> None then Cached hs
      else if h = 0 then LeafInput h sz (the_bytes k) (the_bytes v) ver
      else InnerInput h sz
             (case ln of None \<Rightarrow> Cached lh | Some l \<Rightarrow> digest_input_of l)
             (case rn of None \<Rightarrow> Cached rh | Some r \<Rightarrow> digest_input_of r))"

text \<open>The hash as a function of that part alone.\<close>

fun digest_of :: "digest_input \<Rightarrow> error + bytes" where
  "digest_of (Cached h) = Inr h"
| "digest_of (LeafInput h sz k v ver) =
     Inr (Some (ripemd160 (WriteInt8 h @ WriteVarint sz @ WriteByteSlice (Some k)
                             @ WriteByteSlice (Some v) @ WriteUint64 ver)))"
| "digest_of (InnerInput h sz l r) =
     (case digest_of l of
        Inl e \<Rightarrow> Inl e
      | Inr lh \<Rightarrow>
          if lh = None then Inl (PanicSanity ''node.leftHash was nil in writeHashBytes'')
          else
            (case digest_of r of
               Inl e \<Rightarrow> Inl e
             | Inr rh \<Rightarrow>
                 if rh = None then
                   Inl (PanicSanity ''node.rightHash was nil in writeHashBytes'')
                 else
                   Inr (Some (ripemd160 (WriteInt8 h @ WriteVarint sz @ WriteByteSlice lh
                                           @ WriteByteSlice rh)))))"

section \<open>The traversal in the words of the spec\<close>

text \<open>
  Section 4.5 of the spec: the two range predicates, and the visit of a node: the
  callback is called if both predicates hold, and a stop ends the traversal; a leaf
  ends the visit; ascending goes left if \<open>afterStart\<close>, then right if \<open>beforeEnd\<close>;
  descending goes right if \<open>beforeEnd\<close>, then left if \<open>afterStart\<close>; a stop from the
  first child skips the second.
\<close>

definition afterStart :: "bytes \<Rightarrow> IAVLNode \<Rightarrow> bool" where
  "afterStart start n = (start = None \<or> bytes_Compare start (key n) \<le> 0)"

definition beforeEnd :: "bytes \<Rightarrow> bool \<Rightarrow> IAVLNode \<Rightarrow> bool" where
  "beforeEnd end' inclusive n =
     (end' = None \<or>
      (if inclusive then bytes_Compare (key n) end' \<le> 0 else bytes_Compare (key n) end' < 0))"

fun traverseRange ::
  "nat \<Rightarrow> IAVLTree \<Rightarrow> IAVLNode \<Rightarrow> bytes \<Rightarrow> bytes \<Rightarrow> bool \<Rightarrow> bool \<Rightarrow> 's callback \<Rightarrow> 's
     \<Rightarrow> (error + bool \<times> 's) option" where
  "traverseRange 0 t n start end' ascending inclusive cb s = None"
| "traverseRange (Suc fuel) t n start end' ascending inclusive cb s =
     (case (if afterStart start n \<and> beforeEnd end' inclusive n then cb s n else (False, s)) of
        (True, s1) \<Rightarrow> Some (Inr (True, s1))
      | (False, s1) \<Rightarrow>
          if isLeaf n then Some (Inr (False, s1))
          else
            (let go_left = (\<lambda>s'. if afterStart start n then
                               (case getLeftNode t n of
                                  Inl e \<Rightarrow> Some (Inl e)
                                | Inr l \<Rightarrow>
                                    traverseRange fuel t l start end' ascending inclusive cb s')
                             else Some (Inr (False, s')));
                 go_right = (\<lambda>s'. if beforeEnd end' inclusive n then
                               (case getRightNode t n of
                                  Inl e \<Rightarrow> Some (Inl e)
                                | Inr r \<Rightarrow>
                                    traverseRange fuel t r start end' ascending inclusive cb s')
                             else Some (Inr (False, s')));
                 first = (if ascending then go_left else go_right);
                 second = (if ascending then go_right else go_left)
             in case first s1 of
                  None \<Rightarrow> None
                | Some (Inl e) \<Rightarrow> Some (Inl e)
                | Some (Inr (True, s2)) \<Rightarrow> Some (Inr (True, s2))
                | Some (Inr (False, s2)) \<Rightarrow> second s2))"

section \<open>Comparing a decoded node with the encoded one\<close>

text \<open>
  Section 8.1 of the spec, item 9: equal in all attributes except \<^verbatim>\<open>hash\<close> and
  \<^verbatim>\<open>persisted\<close>. Byte slices are compared as Go compares them (\<^verbatim>\<open>bytes.Equal\<close>).
\<close>

definition same_except_hash_persisted :: "IAVLNode \<Rightarrow> IAVLNode \<Rightarrow> bool" where
  "same_except_hash_persisted m n =
     (bytes_Equal (key m) (key n) \<and> bytes_Equal (value' m) (value' n)
      \<and> version m = version n \<and> height m = height n \<and> size' m = size' n
      \<and> bytes_Equal (leftHash m) (leftHash n) \<and> leftNode m = leftNode n
      \<and> bytes_Equal (rightHash m) (rightHash n) \<and> rightNode m = rightNode n)"

text \<open>The node that \<^verbatim>\<open>MakeIAVLNode\<close> builds from the store-bytes of \<open>n\<close>.\<close>

definition stored_form :: "IAVLNode \<Rightarrow> IAVLNode" where
  "stored_form n =
     (if isLeaf n then
        IAVLNode (Some (the_bytes (key n))) (Some (the_bytes (value' n))) (version n)
          (height n) (size' n) None None None None None False
      else
        IAVLNode (Some (the_bytes (key n))) None (version n) (height n) (size' n) None
          (Some (the_bytes (leftHash n))) None (Some (the_bytes (rightHash n))) None False)"

text \<open>A Go slice has a length below \<open>2 ^ 63\<close>; a list has any length.\<close>

definition go_slice :: "bytes \<Rightarrow> bool" where
  "go_slice b = (length (the_bytes b) < 2 ^ 63)"

section \<open>Scenarios\<close>

text \<open>
  The keys \<^verbatim>\<open>"a"\<close>, \<^verbatim>\<open>"b"\<close>, \<^verbatim>\<open>"c"\<close> and the values \<^verbatim>\<open>"1"\<close>, \<^verbatim>\<open>"2"\<close>, \<^verbatim>\<open>"3"\<close>,
  \<^verbatim>\<open>"1'"\<close> of section 8.2 of the spec, as ASCII bytes; a tree handle with no node
  store (all nodes stay in memory).
\<close>

definition key_a :: bytes where "key_a = Some [0x61]"
definition key_b :: bytes where "key_b = Some [0x62]"
definition key_c :: bytes where "key_c = Some [0x63]"
definition val_1 :: bytes where "val_1 = Some [0x31]"
definition val_2 :: bytes where "val_2 = Some [0x32]"
definition val_3 :: bytes where "val_3 = Some [0x33]"
definition val_1' :: bytes where "val_1' = Some [0x31, 0x27]"

definition no_store :: IAVLTree where
  "no_store = \<lparr>ndb = None\<rparr>"

definition leaf_a :: IAVLNode where "leaf_a = NewIAVLNode key_a val_1"
definition leaf_b :: IAVLNode where "leaf_b = NewIAVLNode key_b val_2"
definition leaf_c :: IAVLNode where "leaf_c = NewIAVLNode key_c val_3"

text \<open>An inner node as \<^verbatim>\<open>set\<close> and \<^verbatim>\<open>remove\<close> leave it: no hash, children in memory.\<close>

definition inner :: "bytes \<Rightarrow> 8 word \<Rightarrow> 64 word \<Rightarrow> IAVLNode \<Rightarrow> IAVLNode \<Rightarrow> IAVLNode" where
  "inner k h sz l r = IAVLNode k None 0 h sz None None (Some l) None (Some r) False"

text \<open>S2: the tree after \<^verbatim>\<open>"a"\<close>, \<^verbatim>\<open>"b"\<close>.\<close>

definition s2_tree :: IAVLNode where
  "s2_tree = inner key_b 1 2 leaf_a leaf_b"

text \<open>The tree after \<^verbatim>\<open>"c"\<close>, \<^verbatim>\<open>"b"\<close>, \<^verbatim>\<open>"a"\<close> (scenario S3), and after removing \<^verbatim>\<open>"a"\<close> from it.\<close>

definition s3_tree :: IAVLNode where
  "s3_tree = inner key_c 2 3 (inner key_b 1 2 leaf_a leaf_b) leaf_c"

definition s5_tree :: IAVLNode where
  "s5_tree = inner key_c 1 2 leaf_b leaf_c"

text \<open>The two insertion orders of scenario S6 and the trees they build.\<close>

definition seq_abc :: "tree_op list" where
  "seq_abc = [OpSet key_a val_1, OpSet key_b val_2, OpSet key_c val_3]"

definition seq_cab_b :: "tree_op list" where
  "seq_cab_b = [OpSet key_c val_3, OpSet key_a val_1, OpSet key_b val_2, OpSet key_b val_2]"

text \<open>
  A third list of operations, with a delete, that ends in the same entries and in the
  tree of the second order.
\<close>

definition key_d :: bytes where "key_d = Some [0x64]"
definition val_4 :: bytes where "val_4 = Some [0x34]"

definition seq_bcda_d :: "tree_op list" where
  "seq_bcda_d = [OpSet key_b val_2, OpSet key_c val_3, OpSet key_d val_4, OpSet key_a val_1,
                 OpRemove key_d]"

text \<open>
  The second order without the last \<^verbatim>\<open>set\<close>, and with any value \<open>x\<close> for \<^verbatim>\<open>"b"\<close>
  before the last \<^verbatim>\<open>set\<close> replaces it.
\<close>

definition seq_cab :: "tree_op list" where
  "seq_cab = [OpSet key_c val_3, OpSet key_a val_1, OpSet key_b val_2]"

definition seq_cab_reset :: "bytes \<Rightarrow> tree_op list" where
  "seq_cab_reset x = [OpSet key_c val_3, OpSet key_a val_1, OpSet key_b x, OpSet key_b val_2]"

definition tree_abc :: IAVLNode where
  "tree_abc = inner key_b 2 3 leaf_a (inner key_c 1 2 leaf_b leaf_c)"

definition tree_cab :: IAVLNode where
  "tree_cab = inner key_c 2 3 (inner key_b 1 2 leaf_a leaf_b) leaf_c"

text \<open>The RIPEMD-160 digests of the nodes of these trees.\<close>

definition hash_leaf_a :: "byte list" where
  "hash_leaf_a = [179, 176, 20, 181, 57, 221, 151, 2, 7, 90, 90, 119, 221, 162, 73, 82,
                  146, 195, 237, 240]"

definition hash_leaf_b :: "byte list" where
  "hash_leaf_b = [22, 117, 247, 158, 135, 27, 61, 30, 150, 119, 56, 157, 76, 9, 156, 179,
                  64, 220, 176, 245]"

definition hash_leaf_c :: "byte list" where
  "hash_leaf_c = [9, 24, 139, 63, 112, 143, 78, 47, 82, 154, 58, 154, 221, 175, 201, 228,
                  177, 76, 218, 143]"

definition hash_ab :: "byte list" where
  "hash_ab = [175, 208, 13, 136, 107, 248, 220, 255, 125, 126, 11, 3, 6, 17, 49, 219,
              195, 216, 142, 174]"

definition hash_bc :: "byte list" where
  "hash_bc = [209, 54, 135, 236, 30, 55, 200, 247, 125, 192, 226, 84, 196, 251, 186, 116,
              171, 99, 82, 200]"

definition hash_abc :: "byte list" where
  "hash_abc = [216, 222, 26, 55, 132, 180, 227, 191, 13, 192, 201, 216, 248, 97, 251, 18,
               190, 156, 141, 49]"

definition hash_cab :: "byte list" where
  "hash_cab = [215, 198, 53, 107, 204, 229, 205, 81, 65, 12, 132, 151, 252, 250, 84, 12,
               3, 51, 121, 156]"

text \<open>
  S2 after hashing: every node carries its hash, the root the hashes of its children,
  and the children are still in memory.
\<close>

definition s2_hashed :: IAVLNode where
  "s2_hashed =
     IAVLNode key_b None 0 1 2 (Some hash_ab)
       (Some hash_leaf_a) (Some (set_hash (Some hash_leaf_a) leaf_a))
       (Some hash_leaf_b) (Some (set_hash (Some hash_leaf_b) leaf_b)) False"

text \<open>
  S2 persisted: the store resolves the two leaf hashes and the root hash; the root is
  persisted and refers to its children by hash only.
\<close>

definition s2_lookup :: "bytes \<Rightarrow> store_error + IAVLNode" where
  "s2_lookup h =
     (if h = Some hash_leaf_a then Inr leaf_a
      else if h = Some hash_leaf_b then Inr leaf_b
      else if h = Some hash_ab then
        Inr (IAVLNode key_b None 0 1 2 None (Some hash_leaf_a) None (Some hash_leaf_b) None False)
      else Inl StoreMiss)"

definition s2_store :: IAVLTree where
  "s2_store = \<lparr>ndb = Some \<lparr>lookup = s2_lookup, orphans = []\<rparr>\<rparr>"

definition s2_persisted :: IAVLNode where
  "s2_persisted =
     IAVLNode key_b None 0 1 2 (Some hash_ab) (Some hash_leaf_a) None (Some hash_leaf_b) None True"

definition leaf_a_persisted :: IAVLNode where
  "leaf_a_persisted = set_persisted True (set_hash (Some hash_leaf_a) leaf_a)"

text \<open>
  A tree that breaks the invariant on separators: the root's key \<^verbatim>\<open>"b"\<close> is not a key
  of its right subtree.
\<close>

definition bad_separator_tree :: IAVLNode where
  "bad_separator_tree = inner key_b 1 2 leaf_a leaf_c"

text \<open>
  Two callbacks for the traversal: one records the key of every node it is called on
  and never stops; one does the same and stops at a given key.
\<close>

definition visit_all :: "bytes list callback" where
  "visit_all s n = (False, s @ [key n])"

definition visit_until :: "bytes \<Rightarrow> bytes list callback" where
  "visit_until k s n = (bytes_Equal (key n) k, s @ [key n])"

text \<open>
  The nodes that \<^verbatim>\<open>writeBytes\<close> accepts: a leaf, or an inner node with both child
  hashes set; every slice it writes has the length of a Go slice.
\<close>

definition encodable :: "IAVLNode \<Rightarrow> bool" where
  "encodable n = (go_slice (key n)
     \<and> (if isLeaf n then go_slice (value' n)
         else leftHash n \<noteq> None \<and> rightHash n \<noteq> None
              \<and> go_slice (leftHash n) \<and> go_slice (rightHash n)))"

section \<open>Evaluating the definitions\<close>

text \<open>
  The definitions are unfolded only where their arguments are known: the weak
  congruence rules keep the simplifier out of a branch until the value it depends on
  is a constructor.
\<close>

lemmas node_ops =
  isLeaf_def bytes_Compare_def bytes_Equal_def the_bytes_def NewIAVLNode_def copy'_def
  getLeftNode_def getRightNode_def GetNode_def removeOrphan_def RemoveNode_def
  calcHeightAndSize_def calcBalance_def maxInt8_def balance_def rotateLeft_def rotateRight_def
  set_finish_def remove_rebalance_def
  set_key_def set_version_def set_height_size_def set_hash_def set_left_def set_right_def
  set_persisted_def

lemmas scenario_defs =
  key_a_def key_b_def key_c_def key_d_def val_1_def val_2_def val_3_def val_4_def val_1'_def
  no_store_def
  leaf_a_def leaf_b_def leaf_c_def inner_def

lemmas eval_cong =
  sum.case_cong_weak option.case_cong_weak prod.case_cong_weak list.case_cong_weak
  let_weak_cong

lemmas set'_numeral = set'.simps(2) [of "pred_numeral n", folded numeral_eq_Suc] for n

lemmas remove'_numeral = remove'.simps(2) [of "pred_numeral n", folded numeral_eq_Suc] for n

section \<open>The wire codec: reading back what was written\<close>

text \<open>
  Each reader, applied to the bytes of its writer followed by any bytes, returns the
  value written and the number of bytes the writer produced.
\<close>

lemma unat_of_nat_byte: "n < 256 \<Longrightarrow> unat (of_nat n :: byte) = n"
  by (simp add: unat_of_nat)

lemma leb128_last_byte: "n < 128 \<Longrightarrow> (of_nat n :: byte) < 128"
  by (simp add: word_less_nat_alt unat_of_nat)

lemma leb128_more_byte:
  "\<not> (of_nat (128 + n mod 128) :: byte) < 128"
  "unat (of_nat (128 + n mod 128) :: byte) - 128 = n mod 128"
proof -
  have "128 + n mod 128 < 256"
    using mod_less_divisor [of 128 n] by linarith
  then have u: "unat (of_nat (128 + n mod 128) :: byte) = 128 + n mod 128"
    by (rule unat_of_nat_byte)
  show "\<not> (of_nat (128 + n mod 128) :: byte) < 128"
    unfolding word_less_nat_alt u by simp
  show "unat (of_nat (128 + n mod 128) :: byte) - 128 = n mod 128"
    unfolding u by simp
qed

lemma unleb128_leb128: "unleb128 (leb128 n @ rest) = Some (n, length (leb128 n))"
proof (induction n rule: leb128.induct)
  case (1 n)
  show ?case
  proof (cases "n < 128")
    case True
    then show ?thesis
      by (simp add: leb128.simps [of n] leb128_last_byte unat_of_nat_byte)
  next
    case False
    with 1 show ?thesis
      by (simp add: leb128.simps [of n] leb128_more_byte del: of_nat_add)
  qed
qed

lemma zigzag_inverse: "unzigzag (zigzag i) = i"
proof (cases "i < 0")
  case True
  then have "zigzag i = nat (- 2 * i - 1)" by (simp add: zigzag_def)
  moreover from True have "odd (nat (- 2 * i - 1))"
    by (simp add: even_nat_iff)
  moreover from True have "int (nat (- 2 * i - 1) div 2) = - i - 1"
    by (simp add: zdiv_int) 
  ultimately show ?thesis by (simp add: unzigzag_def)
next
  case False
  then show ?thesis by (simp add: zigzag_def unzigzag_def zdiv_int even_nat_iff)
qed

lemma zigzag_bound: "- (2 ^ 63) \<le> i \<Longrightarrow> i < 2 ^ 63 \<Longrightarrow> zigzag i < 2 ^ 64"
  by (auto simp: zigzag_def)

lemma GetVarint_WriteVarint:
  "GetVarint (WriteVarint i @ rest) = Inr (i, length (WriteVarint i))"
proof -
  have "zigzag (sint i) < 2 ^ 64"
    using sint_ge [of i] sint_lt [of i] by (intro zigzag_bound) simp_all
  then show ?thesis
    by (simp add: GetVarint_def WriteVarint_def unleb128_leb128 zigzag_inverse)
qed

lemma length_bound_sint:
  "n < 2 ^ 63 \<Longrightarrow> sint (of_nat n :: 64 word) = int n"
  by (simp add: signed_of_nat signed_take_bit_int_eq_self)

lemma GetByteSlice_WriteByteSlice:
  assumes "length (the_bytes b) < 2 ^ 63"
  shows "GetByteSlice (WriteByteSlice b @ rest)
           = Inr (Some (the_bytes b), length (WriteByteSlice b))"
  using assms
  by (simp add: GetByteSlice_def WriteByteSlice_def GetVarint_WriteVarint length_bound_sint)

lemma length_be_bytes: "length (be_bytes k n) = k"
  by (induction k arbitrary: n) simp_all

lemma be_nat_append: "be_nat (xs @ [b]) = 256 * be_nat xs + unat b"
  by (simp add: be_nat_def)

lemma be_nat_be_bytes: "be_nat (be_bytes k n) = n mod 256 ^ k"
proof (induction k arbitrary: n)
  case 0
  show ?case by (simp add: be_nat_def)
next
  case (Suc k)
  have "unat (of_nat (n mod 256) :: byte) = n mod 256"
    by (rule unat_of_nat_byte) simp
  then show ?case
    by (simp add: be_nat_append Suc mod_mult2_eq)
qed

lemma GetUint64_WriteUint64: "GetUint64 (WriteUint64 v @ rest) = Inr v"
proof -
  have "unat v < 2 ^ 64" using unsigned_less [of v] by simp
  then have "unat v mod 256 ^ 8 = unat v" by simp
  then show ?thesis
    by (simp add: GetUint64_def WriteUint64_def length_be_bytes be_nat_be_bytes)
qed

lemma length_WriteUint64: "length (WriteUint64 v) = 8"
  by (simp add: WriteUint64_def length_be_bytes)

section \<open>The digest on the test vectors and on the scenarios\<close>

text \<open>
  RIPEMD-160 of the empty string and of \<^verbatim>\<open>"abc"\<close>, as published with the algorithm, and
  of the hash-bytes of the nodes of the scenarios.
\<close>

lemma ripemd160_empty:
  "ripemd160 [] = [0x9c, 0x11, 0x85, 0xa5, 0xc5, 0xe9, 0xfc, 0x54, 0x61, 0x28,
                   0x08, 0x97, 0x7e, 0xe8, 0xf5, 0x48, 0xb2, 0x25, 0x8d, 0x31]"
  by code_simp

lemma ripemd160_abc:
  "ripemd160 [0x61, 0x62, 0x63]
     = [0x8e, 0xb2, 0x08, 0xf7, 0xe0, 0x5d, 0x98, 0x7a, 0x9b, 0x04,
        0x4a, 0x8e, 0x98, 0xc6, 0xb0, 0x87, 0xf1, 0x5a, 0x0b, 0xfc]"
  by code_simp

lemma ripemd160_leaf_a:
  "ripemd160 [0, 2, 2, 97, 2, 49, 0, 0, 0, 0, 0, 0, 0, 0] = hash_leaf_a"
  by code_simp

lemma ripemd160_leaf_b:
  "ripemd160 [0, 2, 2, 98, 2, 50, 0, 0, 0, 0, 0, 0, 0, 0] = hash_leaf_b"
  by code_simp

lemma ripemd160_leaf_c:
  "ripemd160 [0, 2, 2, 99, 2, 51, 0, 0, 0, 0, 0, 0, 0, 0] = hash_leaf_c"
  by code_simp

lemma ripemd160_ab:
  "ripemd160 ([1, 4, 40] @ hash_leaf_a @ [40] @ hash_leaf_b) = hash_ab"
  by code_simp

lemma ripemd160_bc:
  "ripemd160 ([1, 4, 40] @ hash_leaf_b @ [40] @ hash_leaf_c) = hash_bc"
  by code_simp

lemma ripemd160_abc_root:
  "ripemd160 ([2, 6, 40] @ hash_leaf_a @ [40] @ hash_bc) = hash_abc"
  by code_simp

lemma ripemd160_cab_root:
  "ripemd160 ([2, 6, 40] @ hash_ab @ [40] @ hash_leaf_c) = hash_cab"
  by code_simp

section \<open>Hashing the scenarios\<close>

lemma set_hash_node [simp]:
  "set_hash h' (IAVLNode k v ver h sz hs lh ln rh rn p) = IAVLNode k v ver h sz h' lh ln rh rn p"
  by (simp add: set_hash_def)

lemma WriteVarint_small:
  "WriteVarint 1 = [2]" "WriteVarint 2 = [4]" "WriteVarint 3 = [6]" "WriteVarint 20 = [40]"
  by (simp_all add: WriteVarint_def zigzag_def leb128.simps)

lemmas be_bytes_numeral = be_bytes.simps(2) [of "pred_numeral n", folded numeral_eq_Suc] for n

lemma WriteUint64_0: "WriteUint64 0 = [0, 0, 0, 0, 0, 0, 0, 0]"
  by (simp add: WriteUint64_def be_bytes_numeral)

lemma WriteByteSlice_one: "WriteByteSlice (Some [b]) = [2, b]"
  by (simp add: WriteByteSlice_def the_bytes_def WriteVarint_small)

lemma length_hashes:
  "length hash_leaf_a = 20" "length hash_leaf_b = 20" "length hash_leaf_c = 20"
  "length hash_ab = 20" "length hash_bc = 20"
  by (simp_all add: hash_leaf_a_def hash_leaf_b_def hash_leaf_c_def hash_ab_def hash_bc_def)

lemma WriteByteSlice_hash: "length h = 20 \<Longrightarrow> WriteByteSlice (Some h) = 40 # h"
  by (simp add: WriteByteSlice_def the_bytes_def WriteVarint_small)

lemmas hash_eval =
  WriteInt8_def WriteVarint_small WriteUint64_0 WriteByteSlice_one WriteByteSlice_hash
  length_hashes set_hash_def NewIAVLNode_def inner_def
  key_a_def key_b_def key_c_def val_1_def val_2_def val_3_def

lemma hashWithCount_leaf_a:
  "hashWithCount leaf_a = Inr (Some hash_leaf_a, 1, set_hash (Some hash_leaf_a) leaf_a)"
  by (simp add: leaf_a_def hash_eval ripemd160_leaf_a Let_def)

lemma hashWithCount_leaf_b:
  "hashWithCount leaf_b = Inr (Some hash_leaf_b, 1, set_hash (Some hash_leaf_b) leaf_b)"
  by (simp add: leaf_b_def hash_eval ripemd160_leaf_b Let_def)

lemma hashWithCount_leaf_c:
  "hashWithCount leaf_c = Inr (Some hash_leaf_c, 1, set_hash (Some hash_leaf_c) leaf_c)"
  by (simp add: leaf_c_def hash_eval ripemd160_leaf_c Let_def)

lemma hashWithCount_s2: "hashWithCount s2_tree = Inr (Some hash_ab, 3, s2_hashed)"
  using ripemd160_ab
  by (simp add: s2_tree_def s2_hashed_def inner_def hashWithCount_leaf_a hashWithCount_leaf_b
        WriteInt8_def WriteVarint_small WriteByteSlice_hash length_hashes Let_def)

lemma hashWithCount_inner_bc:
  "hashWithCount (inner key_c 1 2 leaf_b leaf_c)
     = Inr (Some hash_bc, 3,
            IAVLNode key_c None 0 1 2 (Some hash_bc)
              (Some hash_leaf_b) (Some (set_hash (Some hash_leaf_b) leaf_b))
              (Some hash_leaf_c) (Some (set_hash (Some hash_leaf_c) leaf_c)) False)"
  using ripemd160_bc
  by (simp add: inner_def hashWithCount_leaf_b hashWithCount_leaf_c
        WriteInt8_def WriteVarint_small WriteByteSlice_hash length_hashes Let_def)

lemma hashWithCount_tree_abc:
  "map_sum id fst (hashWithCount tree_abc) = Inr (Some hash_abc)"
  using ripemd160_abc_root
  by (simp add: tree_abc_def inner_def [of key_b] hashWithCount_leaf_a hashWithCount_inner_bc
        WriteInt8_def WriteVarint_small WriteByteSlice_hash length_hashes Let_def)

lemma hashWithCount_tree_cab:
  "map_sum id fst (hashWithCount tree_cab) = Inr (Some hash_cab)"
  using ripemd160_cab_root hashWithCount_s2
  by (simp add: tree_cab_def s2_tree_def inner_def [of key_c] hashWithCount_leaf_c
        WriteInt8_def WriteVarint_small WriteByteSlice_hash length_hashes Let_def)

section \<open>Scenario S4: updating a value in a persisted tree\<close>

text \<open>
  Claim C1 fails on the code. The two-key tree of S2 is persisted: the root and both
  leaves carry their hashes and \<^verbatim>\<open>persisted = true\<close>, and the root reaches its children
  through the node store. Setting \<^verbatim>\<open>"a"\<close> to \<^verbatim>\<open>"1'"\<close> returns \<^verbatim>\<open>updated = true\<close>, a new
  root that keeps the hash of the right child, and an orphan list that holds the old
  leaf only: the old inner node, appended first, is lost when the recursive call's
  result is assigned to \<^verbatim>\<open>orphaned\<close>.
\<close>

theorem set_update_reports_only_leaf:
  "set' (Suc (Suc fuel)) s2_store s2_persisted key_a val_1'
     = Some (Inr ((IAVLNode key_b None 0 1 2 None None (Some (NewIAVLNode key_a val_1'))
                     (Some hash_leaf_b) None False,
                   True, [leaf_a_persisted]), s2_store))
   \<and> persisted s2_persisted \<and> persisted leaf_a_persisted
   \<and> getLeftNode s2_store s2_persisted = Inr leaf_a_persisted
   \<and> s2_persisted \<notin> set [leaf_a_persisted]"
  by (simp add: s2_store_def s2_persisted_def s2_lookup_def leaf_a_persisted_def
        scenario_defs node_ops cong: eval_cong)

section \<open>Scenario S6: the root hash and the order of the operations\<close>

lemma hashWithCount_digest_of:
  "map_sum id fst (hashWithCount n) = digest_of (digest_input_of n)"
proof (induction n)
  case (IAVLNode k v ver h sz hs lh ln rh rn p)
  have l: "\<And>l. ln = Some l \<Longrightarrow> map_sum id fst (hashWithCount l) = digest_of (digest_input_of l)"
    using IAVLNode.IH(1) by (simp add: id_def)
  have r: "\<And>r. rn = Some r \<Longrightarrow> map_sum id fst (hashWithCount r) = digest_of (digest_input_of r)"
    using IAVLNode.IH(2) by (simp add: id_def)
  show ?case
  proof (cases "hs \<noteq> None")
    case True
    then show ?thesis by auto
  next
    case False
    note nh = this
    show ?thesis
    proof (cases "h = 0")
      case True
      with nh show ?thesis
        by (simp add: Let_def WriteByteSlice_def the_bytes_def)
    next
      case False
      with nh show ?thesis
        using l r
        by (cases ln; cases rn)
           (auto simp: Let_def split: sum.splits if_splits)
    qed
  qed
qed

subsection \<open>Trees of the same shape hash alike\<close>

text \<open>
  In a tree as \<^verbatim>\<open>set\<close> and \<^verbatim>\<open>remove\<close> build it, the shape and the entries fix the
  heights and the sizes, and so all that the digest reads.
\<close>

lemma fresh_has_shape: "fresh n \<Longrightarrow> \<exists>s. shape_of n = Some s"
proof (induction n)
  case (IAVLNode k v ver h sz hs lh ln rh rn p)
  show ?case
  proof (cases "h = 0")
    case True
    then show ?thesis by simp
  next
    case False
    with IAVLNode.prems obtain l r where c: "ln = Some l" "rn = Some r" "fresh l" "fresh r"
      by (auto split: option.splits)
    from IAVLNode.IH(1) [of l] c obtain sl where "shape_of l = Some sl" by auto
    moreover from IAVLNode.IH(2) [of r] c obtain sr where "shape_of r = Some sr" by auto
    ultimately show ?thesis using False c by simp
  qed
qed

lemma fresh_same_shape:
  "fresh n \<Longrightarrow> fresh m \<Longrightarrow> shape_of n = shape_of m \<Longrightarrow>
   height n = height m \<and> size' n = size' m \<and> digest_input_of n = digest_input_of m"
proof (induction n arbitrary: m)
  case (IAVLNode k v ver h sz hs lh ln rh rn p)
  obtain k' v' ver' h' sz' hs' lh' ln' rh' rn' p' where
    m: "m = IAVLNode k' v' ver' h' sz' hs' lh' ln' rh' rn' p'"
    by (cases m)
  show ?case
  proof (cases "h = 0")
    case True
    note leaf = this
    have "h' = 0"
    proof (rule ccontr)
      assume nz: "h' \<noteq> 0"
      with IAVLNode.prems(2) m obtain l' r' where
        c: "ln' = Some l'" "rn' = Some r'" "fresh l'" "fresh r'"
        by (auto split: option.splits)
      from fresh_has_shape [OF c(3)] fresh_has_shape [OF c(4)] nz c
      obtain sl sr where "shape_of m = Some (Fork sl sr)" unfolding m by auto
      with IAVLNode.prems(3) leaf show False by simp
    qed
    with leaf IAVLNode.prems m show ?thesis by simp
  next
    case False
    note inner = this
    from IAVLNode.prems(1) inner obtain l r where
      c: "ln = Some l" "rn = Some r" "fresh l" "fresh r"
      and hs: "hs = None" "h = maxInt8 (height l) (height r) + 1" "sz = size' l + size' r"
      by (auto split: option.splits)
    from fresh_has_shape [OF c(3)] fresh_has_shape [OF c(4)]
    obtain sl sr where s: "shape_of l = Some sl" "shape_of r = Some sr" by auto
    have nz: "h' \<noteq> 0"
    proof
      assume "h' = 0"
      with IAVLNode.prems(3) m inner c s show False by simp
    qed
    with IAVLNode.prems(2) m obtain l' r' where
      c': "ln' = Some l'" "rn' = Some r'" "fresh l'" "fresh r'"
      and hs': "hs' = None" "h' = maxInt8 (height l') (height r') + 1" "sz' = size' l' + size' r'"
      by (auto split: option.splits)
    from fresh_has_shape [OF c'(3)] fresh_has_shape [OF c'(4)]
    obtain sl' sr' where s': "shape_of l' = Some sl'" "shape_of r' = Some sr'" by auto
    from IAVLNode.prems(3) m inner nz c c' s s' have e: "sl = sl'" "sr = sr'" by simp_all
    have L: "height l = height l' \<and> size' l = size' l' \<and> digest_input_of l = digest_input_of l'"
      using IAVLNode.IH(1) [of l l'] c c' s s' e by simp
    have R: "height r = height r' \<and> size' r = size' r' \<and> digest_input_of r = digest_input_of r'"
      using IAVLNode.IH(2) [of r r'] c c' s s' e by simp
    from L R hs hs' inner nz c c' m show ?thesis by simp
  qed
qed


lemma fresh_hashes: "fresh n \<Longrightarrow> \<exists>h c n'. hashWithCount n = Inr (Some h, c, n')"
proof (induction n)
  case (IAVLNode k v ver h sz hs lh ln rh rn p)
  show ?case
  proof (cases "h = 0")
    case True
    with IAVLNode.prems show ?thesis by (simp add: Let_def)
  next
    case False
    with IAVLNode.prems obtain l r where
      c: "ln = Some l" "rn = Some r" "fresh l" "fresh r" and hs: "hs = None"
      by (auto split: option.splits)
    from IAVLNode.IH(1) [of l] c obtain hl cl l1 where
      l: "hashWithCount l = Inr (Some hl, cl, l1)" by auto
    from IAVLNode.IH(2) [of r] c obtain hr cr r1 where
      r: "hashWithCount r = Inr (Some hr, cr, r1)" by auto
    from False c hs l r show ?thesis by (simp add: Let_def)
  qed
qed


lemma root_hash_of_result:
  "apply_ops fuel no_store None ops = Some (Inr (Some r, t)) \<Longrightarrow>
   root_hash fuel ops = Some (map_sum id fst (hashWithCount r))"
  by (cases "hashWithCount r") (auto simp: root_hash_def no_store_def)

lemma root_hash_of_empty:
  "apply_ops fuel no_store None ops = Some (Inr (None, t)) \<Longrightarrow>
   root_hash fuel ops = Some (Inr None)"
  by (simp add: root_hash_def no_store_def)

lemma same_shape_same_root_hash:
  assumes a1: "apply_ops fuel1 no_store None ops1 = Some (Inr (root1, t1))"
    and a2: "apply_ops fuel2 no_store None ops2 = Some (Inr (root2, t2))"
    and f1: "fresh_tree root1" and f2: "fresh_tree root2" and s: "same_shape root1 root2"
  shows "root_hash fuel1 ops1 = root_hash fuel2 ops2
         \<and> (\<exists>h. root_hash fuel1 ops1 = Some (Inr h))"
proof (cases root1)
  case None
  with s have "root2 = None" by (simp add: same_shape_def)
  with None a1 a2 show ?thesis by (simp add: root_hash_of_empty)
next
  case (Some r1)
  with s obtain r2 where r2: "root2 = Some r2" "shape_of r1 = shape_of r2"
    by (cases root2) (simp_all add: same_shape_def)
  from f1 f2 Some r2 have f: "fresh r1" "fresh r2" by (simp_all add: fresh_tree_def)
  from fresh_same_shape [OF f r2(2)]
  have "digest_input_of r1 = digest_input_of r2" by simp
  then have e: "map_sum id fst (hashWithCount r1) = map_sum id fst (hashWithCount r2)"
    by (simp add: hashWithCount_digest_of)
  from fresh_hashes [OF f(1)] obtain h c n' where "hashWithCount r1 = Inr (Some h, c, n')"
    by blast
  then have h: "map_sum id fst (hashWithCount r1) = Inr (Some h)" by simp
  have 1: "root_hash fuel1 ops1 = Some (map_sum id fst (hashWithCount r1))"
    using a1 Some by (simp add: root_hash_of_result)
  have 2: "root_hash fuel2 ops2 = Some (map_sum id fst (hashWithCount r2))"
    using a2 r2 by (simp add: root_hash_of_result)
  show ?thesis unfolding 1 2 e [symmetric] h by simp
qed

subsection \<open>The operations keep the tree fresh\<close>

text \<open>
  As long as no height leaves the range of an \<^verbatim>\<open>int8\<close>, \<^verbatim>\<open>set\<close> and \<^verbatim>\<open>remove\<close> return,
  given fuel above the depth of the tree, and return a tree in which every node is in
  memory and unhashed, with the height and the size that \<^verbatim>\<open>calcHeightAndSize\<close>
  computes. \<^verbatim>\<open>set\<close> adds at most one to the depth and \<^verbatim>\<open>remove\<close> adds nothing, so a
  list of at most 127 operations on the empty tree stays in that range.
\<close>

lemma sint_succ: "sint (x :: 8 word) < 127 \<Longrightarrow> sint (x + 1) = sint x + 1"
  using sint_ge [of x]
  by (simp add: sint_word_ariths signed_take_bit_int_eq_self)

lemma sint_maxInt8: "sint (maxInt8 a b) = max (sint a) (sint b)"
  by (simp add: maxInt8_def)

lemma fresh_leaf: "height n = 0 \<Longrightarrow> fresh n = (hash n = None \<and> size' n = 1)"
  by (cases n) simp

lemma fresh_inner:
  "height n \<noteq> 0 \<Longrightarrow>
   fresh n = (hash n = None \<and>
     (\<exists>l r. leftNode n = Some l \<and> rightNode n = Some r \<and> fresh l \<and> fresh r
            \<and> height n = maxInt8 (height l) (height r) + 1
            \<and> size' n = size' l + size' r))"
  by (cases n) (auto split: option.splits)

lemma depth_leaf: "height n = 0 \<Longrightarrow> depth n = 0"
  by (cases n) simp

lemma depth_inner:
  "height n \<noteq> 0 \<Longrightarrow> leftNode n = Some l \<Longrightarrow> rightNode n = Some r \<Longrightarrow>
   depth n = Suc (max (depth l) (depth r))"
  by (cases n) simp

lemma depth_0: "depth n = 0 \<longleftrightarrow> height n = 0"
  by (cases n) simp

lemma fresh_height: "fresh n \<Longrightarrow> depth n \<le> 127 \<Longrightarrow> sint (height n) = int (depth n)"
proof (induction n)
  case (IAVLNode k v ver h sz hs lh ln rh rn p)
  show ?case
  proof (cases "h = 0")
    case True
    then show ?thesis by simp
  next
    case False
    with IAVLNode.prems(1) obtain l r where
      c: "ln = Some l" "rn = Some r" "fresh l" "fresh r"
        "h = maxInt8 (height l) (height r) + 1"
      by (auto split: option.splits)
    from False c IAVLNode.prems(2) have d: "depth l \<le> 126" "depth r \<le> 126" by simp_all
    from IAVLNode.IH(1) [of l] c d have hl: "sint (height l) = int (depth l)" by simp
    from IAVLNode.IH(2) [of r] c d have hr: "sint (height r) = int (depth r)" by simp
    from hl hr d have "sint (maxInt8 (height l) (height r)) < 127"
      by (simp add: sint_maxInt8)
    then have "sint h = max (sint (height l)) (sint (height r)) + 1"
      unfolding c(5) by (simp add: sint_succ sint_maxInt8)
    with False c hl hr show ?thesis by simp
  qed
qed


lemma made_fresh:
  assumes "fresh a" "fresh b" "depth a \<le> 126" "depth b \<le> 126"
    and "leftNode X = Some a" "rightNode X = Some b" "hash X = None"
  shows "fresh (set_height_size (maxInt8 (height a) (height b) + 1) (size' a + size' b) X)
         \<and> depth (set_height_size (maxInt8 (height a) (height b) + 1) (size' a + size' b) X)
             = Suc (max (depth a) (depth b))"
proof -
  from assms have "sint (height a) = int (depth a)" "sint (height b) = int (depth b)"
    by (simp_all add: fresh_height)
  with assms have "sint (maxInt8 (height a) (height b) + 1) = int (max (depth a) (depth b)) + 1"
    by (simp add: sint_succ sint_maxInt8)
  then have nz: "maxInt8 (height a) (height b) + 1 \<noteq> 0" by auto
  with assms show ?thesis
    by (cases X) (simp add: set_height_size_def)
qed

lemma calc_in_memory:
  "leftNode X = Some a \<Longrightarrow> rightNode X = Some b \<Longrightarrow>
   calcHeightAndSize t X
     = Inr (set_height_size (maxInt8 (height a) (height b) + 1) (size' a + size' b) X)"
  by (simp add: calcHeightAndSize_def getLeftNode_def getRightNode_def)

lemma rotateRight_fresh:
  assumes "height node0 \<noteq> 0" "leftNode node0 = Some l" "rightNode node0 = Some r"
    and "height l \<noteq> 0" "leftNode l = Some ll" "rightNode l = Some lr"
    and "fresh ll" "fresh lr" "fresh r"
    and "depth ll \<le> 126" "depth lr \<le> 125" "depth r \<le> 125"
  shows "\<exists>X N t'. rotateRight t node0 = Inr (X, t') \<and> fresh X \<and> fresh N
           \<and> leftNode X = Some ll \<and> rightNode X = Some N
           \<and> depth N = Suc (max (depth lr) (depth r))
           \<and> depth X = Suc (max (depth ll) (depth N))"
proof -
  define node where "node = IAVLNode (key node0) None (version node0) (height node0)
     (size' node0) None (leftHash node0) (leftNode node0) (rightHash node0) (rightNode node0) False"
  define l' where "l' = IAVLNode (key l) None (version l) (height l)
     (size' l) None (leftHash l) (leftNode l) (rightHash l) (rightNode l) False"
  define node1 where "node1 = set_left (rightHash l') (rightNode l') node"
  define N where "N = set_height_size (maxInt8 (height lr) (height r) + 1) (size' lr + size' r) node1"
  define X0 where "X0 = set_right (hash node) (Some N) l'"
  define X where "X = set_height_size (maxInt8 (height ll) (height N) + 1) (size' ll + size' N) X0"
  have c1: "copy' node0 = Inr node" using assms(1) by (simp add: copy'_def isLeaf_def node_def)
  have c2: "copy' l = Inr l'" using assms(4) by (simp add: copy'_def isLeaf_def l'_def)
  have g: "getLeftNode t node = Inr l" using assms(2) by (simp add: getLeftNode_def node_def)
  have n1: "leftNode node1 = Some lr" "rightNode node1 = Some r" "hash node1 = None"
    using assms(3,6) by (simp_all add: node1_def set_left_def node_def l'_def)
  from made_fresh [OF assms(8,9) _ _ n1] assms(11,12)
  have N: "fresh N" "depth N = Suc (max (depth lr) (depth r))" by (simp_all add: N_def)
  have x0: "leftNode X0 = Some ll" "rightNode X0 = Some N" "hash X0 = None"
    using assms(5) by (simp_all add: X0_def set_right_def l'_def)
  from N assms(11,12) have dN: "depth N \<le> 126" by simp
  from made_fresh [OF assms(7) N(1) assms(10) dN x0]
  have X: "fresh X" "depth X = Suc (max (depth ll) (depth N))" by (simp_all add: X_def)
  have xc: "leftNode X = Some ll" "rightNode X = Some N"
    using x0 by (cases X0, simp add: X_def set_height_size_def)+
  have "rotateRight t node0 = Inr (X, removeOrphan t l)"
    unfolding rotateRight_def
    by (simp add: c1 c2 g Let_def calc_in_memory [OF n1(1,2)] calc_in_memory [OF x0(1,2)]
          node1_def [symmetric] N_def [symmetric] X0_def [symmetric] X_def [symmetric])
  with X N xc show ?thesis by blast
qed


lemma rotateLeft_fresh:
  assumes "height node0 \<noteq> 0" "leftNode node0 = Some l" "rightNode node0 = Some r"
    and "height r \<noteq> 0" "leftNode r = Some rl" "rightNode r = Some rr"
    and "fresh l" "fresh rl" "fresh rr"
    and "depth rr \<le> 126" "depth l \<le> 125" "depth rl \<le> 125"
  shows "\<exists>X N t'. rotateLeft t node0 = Inr (X, t') \<and> fresh X \<and> fresh N
           \<and> leftNode X = Some N \<and> rightNode X = Some rr
           \<and> depth N = Suc (max (depth l) (depth rl))
           \<and> depth X = Suc (max (depth N) (depth rr))"
proof -
  define node where "node = IAVLNode (key node0) None (version node0) (height node0)
     (size' node0) None (leftHash node0) (leftNode node0) (rightHash node0) (rightNode node0) False"
  define r' where "r' = IAVLNode (key r) None (version r) (height r)
     (size' r) None (leftHash r) (leftNode r) (rightHash r) (rightNode r) False"
  define node1 where "node1 = set_right (leftHash r') (leftNode r') node"
  define N where "N = set_height_size (maxInt8 (height l) (height rl) + 1) (size' l + size' rl) node1"
  define X0 where "X0 = set_left (hash node) (Some N) r'"
  define X where "X = set_height_size (maxInt8 (height N) (height rr) + 1) (size' N + size' rr) X0"
  have c1: "copy' node0 = Inr node" using assms(1) by (simp add: copy'_def isLeaf_def node_def)
  have c2: "copy' r = Inr r'" using assms(4) by (simp add: copy'_def isLeaf_def r'_def)
  have g: "getRightNode t node = Inr r" using assms(3) by (simp add: getRightNode_def node_def)
  have n1: "leftNode node1 = Some l" "rightNode node1 = Some rl" "hash node1 = None"
    using assms(2,5) by (simp_all add: node1_def set_right_def node_def r'_def)
  from made_fresh [OF assms(7,8) _ _ n1] assms(11,12)
  have N: "fresh N" "depth N = Suc (max (depth l) (depth rl))" by (simp_all add: N_def)
  have x0: "leftNode X0 = Some N" "rightNode X0 = Some rr" "hash X0 = None"
    using assms(6) by (simp_all add: X0_def set_left_def r'_def)
  from N assms(11,12) have dN: "depth N \<le> 126" by simp
  from made_fresh [OF N(1) assms(9) dN assms(10) x0]
  have X: "fresh X" "depth X = Suc (max (depth N) (depth rr))" by (simp_all add: X_def)
  have xc: "leftNode X = Some N" "rightNode X = Some rr"
    using x0 by (cases X0, simp add: X_def set_height_size_def)+
  have "rotateLeft t node0 = Inr (X, removeOrphan t r)"
    unfolding rotateLeft_def
    by (simp add: c1 c2 g Let_def calc_in_memory [OF n1(1,2)] calc_in_memory [OF x0(1,2)]
          node1_def [symmetric] N_def [symmetric] X0_def [symmetric] X_def [symmetric])
  with X N xc show ?thesis by blast
qed

lemma calcBalance_in_memory:
  "leftNode n = Some l \<Longrightarrow> rightNode n = Some r \<Longrightarrow>
   calcBalance t n = Inr (sint (height l) - sint (height r))"
  by (simp add: calcBalance_def getLeftNode_def getRightNode_def)

lemma fresh_children:
  assumes "fresh n" "height n \<noteq> 0" "depth n \<le> 127"
  obtains l r where "leftNode n = Some l" "rightNode n = Some r" "fresh l" "fresh r"
    "depth n = Suc (max (depth l) (depth r))"
    "sint (height l) = int (depth l)" "sint (height r) = int (depth r)"
    "size' n = size' l + size' r" "height n = maxInt8 (height l) (height r) + 1"
proof -
  from assms(1,2) obtain l r where
    c: "leftNode n = Some l" "rightNode n = Some r" "fresh l" "fresh r"
       "height n = maxInt8 (height l) (height r) + 1" "size' n = size' l + size' r"
    by (auto simp: fresh_inner)
  from depth_inner [OF assms(2) c(1,2)] have d: "depth n = Suc (max (depth l) (depth r))" .
  with assms(3) have "depth l \<le> 127" "depth r \<le> 127" by simp_all
  with c have "sint (height l) = int (depth l)" "sint (height r) = int (depth r)"
    by (simp_all add: fresh_height)
  with c d that show thesis by blast
qed

lemma balance_fresh:
  assumes f: "fresh n" and nz: "height n \<noteq> 0" and d: "depth n \<le> 127"
    and np: "\<not> persisted n"
  shows "\<exists>n' t'. balance t n = Inr (n', t') \<and> fresh n' \<and> depth n' \<le> depth n"
proof -
  from fresh_children [OF f nz d] obtain l r where
    c: "leftNode n = Some l" "rightNode n = Some r" "fresh l" "fresh r"
       "depth n = Suc (max (depth l) (depth r))"
       "sint (height l) = int (depth l)" "sint (height r) = int (depth r)" by blast
  note cb = calcBalance_in_memory [OF c(1,2), of t, unfolded c(6,7)]
  consider (L) "int (depth l) - int (depth r) > 1"
    | (R) "int (depth l) - int (depth r) < -1"
    | (M) "\<not> int (depth l) - int (depth r) > 1" "\<not> int (depth l) - int (depth r) < -1"
    by linarith
  then show ?thesis
  proof cases
    case M
    with np cb have "balance t n = Inr (n, t)" by (simp add: balance_def)
    with f show ?thesis by simp
  next
    case L
    then have dl: "depth r + 2 \<le> depth l" by linarith
    with c(5) d have dl126: "depth l \<le> 126" by simp
    from dl have lnz: "height l \<noteq> 0" using depth_0 [of l] by auto
    from dl126 have "depth l \<le> 127" by simp
    from fresh_children [OF c(3) lnz this] obtain ll lr where
      cl: "leftNode l = Some ll" "rightNode l = Some lr" "fresh ll" "fresh lr"
         "depth l = Suc (max (depth ll) (depth lr))"
         "sint (height ll) = int (depth ll)" "sint (height lr) = int (depth lr)" by blast
    note cbl = calcBalance_in_memory [OF cl(1,2), of t, unfolded cl(6,7)]
    have gl: "getLeftNode t n = Inr l" using c(1) by (simp add: getLeftNode_def)
    show ?thesis
    proof (cases "int (depth ll) - int (depth lr) \<ge> 0")
      case True
      with np cb cbl gl L have rr: "balance t n = rotateRight t n"
        by (simp add: balance_def)
      have "depth ll \<le> 126" "depth lr \<le> 125" "depth r \<le> 125"
        using cl(5) dl126 dl by arith+
      from rotateRight_fresh [OF nz c(1,2) lnz cl(1,2) cl(3,4) c(4) this, of t]
      obtain X N t' where x: "rotateRight t n = Inr (X, t')" "fresh X"
         "depth N = Suc (max (depth lr) (depth r))"
         "depth X = Suc (max (depth ll) (depth N))" by blast
      from x(3,4) True cl(5) c(5) dl have "depth X \<le> depth n" by arith
      with rr x(1,2) show ?thesis by simp
    next
      case False
      then have lrl: "depth ll < depth lr" by linarith
      then have lrnz: "height lr \<noteq> 0" using depth_0 [of lr] by auto
      from lrl cl(5) have dlr: "depth l = Suc (depth lr)" by simp
      with dl126 have "depth lr \<le> 127" by simp
      from fresh_children [OF cl(4) lrnz this] obtain lrl lrr where
        clr: "leftNode lr = Some lrl" "rightNode lr = Some lrr" "fresh lrl" "fresh lrr"
          "depth lr = Suc (max (depth lrl) (depth lrr))" by blast
      have bnd1: "depth lrr \<le> 126" "depth ll \<le> 125" "depth lrl \<le> 125"
        using clr(5) dlr dl126 lrl by arith+
      from rotateLeft_fresh [OF lnz cl(1,2) lrnz clr(1,2) cl(3) clr(3,4) bnd1,
          of "removeOrphan t l"]
      obtain left' N1 t2 where
        rl: "rotateLeft (removeOrphan t l) l = Inr (left', t2)" "fresh left'" "fresh N1"
          "leftNode left' = Some N1" "rightNode left' = Some lrr"
          "depth N1 = Suc (max (depth ll) (depth lrl))"
          "depth left' = Suc (max (depth N1) (depth lrr))" by blast
      from np cb cbl gl L False rl(1)
      have rr: "balance t n = rotateRight t2 (set_left None (Some left') n)"
        by (simp add: balance_def Let_def)
      have s: "height (set_left None (Some left') n) \<noteq> 0"
        "leftNode (set_left None (Some left') n) = Some left'"
        "rightNode (set_left None (Some left') n) = Some r"
        using nz c(2) by (simp_all add: set_left_def)
      from rl(7) have l'nz: "height left' \<noteq> 0" using depth_0 [of left'] by auto
      have bnd2: "depth N1 \<le> 126" "depth lrr \<le> 125" "depth r \<le> 125"
        using rl(6) clr(5) dlr dl126 lrl dl by arith+
      from rotateRight_fresh [OF s l'nz rl(4,5) rl(3) clr(4) c(4) bnd2, of t2]
      obtain X N t' where x: "rotateRight t2 (set_left None (Some left') n) = Inr (X, t')"
         "fresh X" "depth N = Suc (max (depth lrr) (depth r))"
         "depth X = Suc (max (depth N1) (depth N))" by blast
      from x(3,4) rl(6) clr(5) dlr c(5) dl lrl have "depth X \<le> depth n" by arith
      with rr x(1,2) show ?thesis by simp
    qed
  next
    case R
    then have dr: "depth l + 2 \<le> depth r" by linarith
    with c(5) d have dr126: "depth r \<le> 126" by simp
    from dr have rnz: "height r \<noteq> 0" using depth_0 [of r] by auto
    from dr126 have "depth r \<le> 127" by simp
    from fresh_children [OF c(4) rnz this] obtain rl rr where
      cr: "leftNode r = Some rl" "rightNode r = Some rr" "fresh rl" "fresh rr"
         "depth r = Suc (max (depth rl) (depth rr))"
         "sint (height rl) = int (depth rl)" "sint (height rr) = int (depth rr)" by blast
    note cbr = calcBalance_in_memory [OF cr(1,2), of t, unfolded cr(6,7)]
    have gr: "getRightNode t n = Inr r" using c(2) by (simp add: getRightNode_def)
    show ?thesis
    proof (cases "int (depth rl) - int (depth rr) \<le> 0")
      case True
      with np cb cbr gr R have ro: "balance t n = rotateLeft t n"
        by (simp add: balance_def)
      have "depth rr \<le> 126" "depth l \<le> 125" "depth rl \<le> 125"
        using cr(5) dr126 dr by arith+
      from rotateLeft_fresh [OF nz c(1,2) rnz cr(1,2) c(3) cr(3,4) this, of t]
      obtain X N t' where x: "rotateLeft t n = Inr (X, t')" "fresh X"
         "depth N = Suc (max (depth l) (depth rl))"
         "depth X = Suc (max (depth N) (depth rr))" by blast
      from x(3,4) True cr(5) c(5) dr have "depth X \<le> depth n" by arith
      with ro x(1,2) show ?thesis by simp
    next
      case False
      then have rlr: "depth rr < depth rl" by linarith
      then have rlnz: "height rl \<noteq> 0" using depth_0 [of rl] by auto
      from rlr cr(5) have drl: "depth r = Suc (depth rl)" by simp
      with dr126 have "depth rl \<le> 127" by simp
      from fresh_children [OF cr(3) rlnz this] obtain rll rlr' where
        crl: "leftNode rl = Some rll" "rightNode rl = Some rlr'" "fresh rll" "fresh rlr'"
          "depth rl = Suc (max (depth rll) (depth rlr'))" by blast
      have bnd1: "depth rll \<le> 126" "depth rlr' \<le> 125" "depth rr \<le> 125"
        using crl(5) drl dr126 rlr by arith+
      from rotateRight_fresh [OF rnz cr(1,2) rlnz crl(1,2) crl(3,4) cr(4) bnd1,
          of "removeOrphan t r"]
      obtain right' N1 t2 where
        rl: "rotateRight (removeOrphan t r) r = Inr (right', t2)" "fresh right'" "fresh N1"
          "leftNode right' = Some rll" "rightNode right' = Some N1"
          "depth N1 = Suc (max (depth rlr') (depth rr))"
          "depth right' = Suc (max (depth rll) (depth N1))" by blast
      from np cb cbr gr R False rl(1)
      have ro: "balance t n = rotateLeft t2 (set_right None (Some right') n)"
        by (simp add: balance_def Let_def)
      have s: "height (set_right None (Some right') n) \<noteq> 0"
        "leftNode (set_right None (Some right') n) = Some l"
        "rightNode (set_right None (Some right') n) = Some right'"
        using nz c(1) by (simp_all add: set_right_def)
      from rl(7) have r'nz: "height right' \<noteq> 0" using depth_0 [of right'] by auto
      have bnd2: "depth N1 \<le> 126" "depth l \<le> 125" "depth rll \<le> 125"
        using rl(6) crl(5) drl dr126 rlr dr by arith+
      from rotateLeft_fresh [OF s r'nz rl(4,5) c(3) crl(3) rl(3) bnd2, of t2]
      obtain X N t' where x: "rotateLeft t2 (set_right None (Some right') n) = Inr (X, t')"
         "fresh X" "depth N = Suc (max (depth l) (depth rll))"
         "depth X = Suc (max (depth N) (depth N1))" by blast
      from x(3,4) rl(6) crl(5) drl c(5) dr rlr have "depth X \<le> depth n" by arith
      with ro x(1,2) show ?thesis by simp
    qed
  qed
qed


lemma height_of_depth:
  "fresh a \<Longrightarrow> fresh b \<Longrightarrow> depth a = depth b \<Longrightarrow> depth b \<le> 127 \<Longrightarrow> height a = height b"
  using fresh_height [of a] fresh_height [of b]
  by (simp add: word_eq_iff_signed [where ?'a = int])

lemma copy'_inner:
  "height n \<noteq> 0 \<Longrightarrow>
   copy' n = Inr (IAVLNode (key n) None (version n) (height n) (size' n) None
                  (leftHash n) (leftNode n) (rightHash n) (rightNode n) False)"
  by (simp add: copy'_def isLeaf_def)

lemma rebalanced_fresh:
  assumes x: "leftNode X = Some a" "rightNode X = Some b" "hash X = None" "\<not> persisted X"
    and f: "fresh a" "fresh b" and d: "depth a \<le> 126" "depth b \<le> 126"
  shows "\<exists>X1 n' t'. calcHeightAndSize t X = Inr X1 \<and> balance t X1 = Inr (n', t')
           \<and> fresh n' \<and> depth n' \<le> Suc (max (depth a) (depth b))"
proof -
  define X1 where
    "X1 = set_height_size (maxInt8 (height a) (height b) + 1) (size' a + size' b) X"
  from made_fresh [OF f d x(1,2,3)]
  have X1: "fresh X1" "depth X1 = Suc (max (depth a) (depth b))" by (simp_all add: X1_def)
  have c: "calcHeightAndSize t X = Inr X1" by (simp add: calc_in_memory [OF x(1,2)] X1_def)
  from X1(2) have nz: "height X1 \<noteq> 0" using depth_0 [of X1] by auto
  from X1(2) d have d1: "depth X1 \<le> 127" by simp
  from x(4) have np: "\<not> persisted X1" by (cases X) (simp add: X1_def set_height_size_def)
  from balance_fresh [OF X1(1) nz d1 np, of t] X1(2) c show ?thesis by auto
qed

lemma set_finish_fresh:
  assumes x: "leftNode X = Some a" "rightNode X = Some b" "hash X = None" "\<not> persisted X"
      "height X \<noteq> 0"
    and f: "fresh a" "fresh b" and d: "depth a \<le> 126" "depth b \<le> 126"
    and u: "u \<Longrightarrow> height X = maxInt8 (height a) (height b) + 1 \<and> size' X = size' a + size' b"
  shows "\<exists>n' t'. set_finish t X u orph = Inr ((n', u, orph), t')
         \<and> fresh n' \<and> depth n' \<le> Suc (max (depth a) (depth b))
         \<and> (u \<longrightarrow> depth n' = Suc (max (depth a) (depth b)) \<and> size' n' = size' X)"
proof (cases u)
  case True
  then have e: "set_finish t X u orph = Inr ((X, u, orph), t)" by (simp add: set_finish_def)
  from True u x f have "fresh X" by (simp add: fresh_inner)
  with e x depth_inner [OF x(5) x(1,2)] show ?thesis by simp
next
  case False
  from rebalanced_fresh [OF x(1-4) f d, of t] obtain X1 n' t' where
    "calcHeightAndSize t X = Inr X1" "balance t X1 = Inr (n', t')"
    "fresh n'" "depth n' \<le> Suc (max (depth a) (depth b))" by blast
  with False show ?thesis by (simp add: set_finish_def)
qed

lemma set'_fresh:
  "fresh n \<Longrightarrow> depth n \<le> 126 \<Longrightarrow> depth n < fuel \<Longrightarrow>
   \<exists>n' u orph t'. set' fuel t n k v = Some (Inr ((n', u, orph), t'))
     \<and> fresh n' \<and> depth n' \<le> Suc (depth n) \<and> (u \<longrightarrow> depth n' = depth n \<and> size' n' = size' n)"
proof (induction fuel arbitrary: t n)
  case 0
  then show ?case by simp
next
  case (Suc fuel)
  show ?case
  proof (cases "height n = 0")
    case True
    with Suc.prems(1) have "hash n = None" "size' n = 1" by (simp_all add: fresh_leaf)
    with True depth_leaf [OF True] show ?thesis
      by (cases n) (auto simp: Let_def isLeaf_def NewIAVLNode_def maxInt8_def)
  next
    case False
    from Suc.prems(2) have "depth n \<le> 127" by simp
    from fresh_children [OF Suc.prems(1) False this] obtain l r where
      c: "leftNode n = Some l" "rightNode n = Some r" "fresh l" "fresh r"
         "depth n = Suc (max (depth l) (depth r))"
         "size' n = size' l + size' r" "height n = maxInt8 (height l) (height r) + 1"
      by blast
    define node where "node = IAVLNode (key n) None (version n) (height n) (size' n) None
                  (leftHash n) (leftNode n) (rightHash n) (rightNode n) False"
    have cp: "copy' n = Inr node" using False by (simp add: copy'_inner node_def)
    have g: "getLeftNode t node = Inr l" "getRightNode t node = Inr r"
      using c(1,2) by (simp_all add: getLeftNode_def getRightNode_def node_def)
    from c(5) Suc.prems(2) have dl: "depth l \<le> 126" "depth r \<le> 126" by arith+
    from c(5) Suc.prems(3) have fl: "depth l < fuel" "depth r < fuel" by arith+
    show ?thesis
    proof (cases "bytes_Compare k (key node) < 0")
      case True
      from Suc.IH [OF c(3) dl(1) fl(1), of t] obtain l' u1 orph1 t1 where
        s: "set' fuel t l k v = Some (Inr ((l', u1, orph1), t1))" and
        ih: "fresh l'" "depth l' \<le> Suc (depth l)"
        "u1 \<Longrightarrow> depth l' = depth l \<and> size' l' = size' l" by blast
      have x: "leftNode (set_left None (Some l') node) = Some l'"
        "rightNode (set_left None (Some l') node) = Some r"
        "hash (set_left None (Some l') node) = None"
        "\<not> persisted (set_left None (Some l') node)"
        "height (set_left None (Some l') node) \<noteq> 0"
        using c(2) False by (simp_all add: set_left_def node_def)
      from ih(2) c(5) Suc.prems(2) have dl': "depth l' \<le> 126" by arith
      have uu: "height (set_left None (Some l') node) = maxInt8 (height l') (height r) + 1
           \<and> size' (set_left None (Some l') node) = size' l' + size' r" if "u1"
      proof -
        from ih(3) [OF that] have e: "depth l' = depth l" "size' l' = size' l" by simp_all
        from dl(1) have "depth l \<le> 127" by simp
        from height_of_depth [OF ih(1) c(3) e(1) this] e(2) c(6,7)
        show ?thesis by (simp add: set_left_def node_def)
      qed
      from set_finish_fresh [OF x ih(1) c(4) dl' dl(2) uu, of u1 t1 orph1]
      obtain n' t' where
        fin: "set_finish t1 (set_left None (Some l') node) u1 orph1 = Inr ((n', u1, orph1), t')"
        and r: "fresh n'" "depth n' \<le> Suc (max (depth l') (depth r))"
        "u1 \<Longrightarrow> depth n' = Suc (max (depth l') (depth r))
            \<and> size' n' = size' (set_left None (Some l') node)" by blast
      have sz: "size' (set_left None (Some l') node) = size' n"
        by (simp add: set_left_def node_def)
      have e: "set' (Suc fuel) t n k v = Some (Inr ((n', u1, orph1), t'))"
        using False True cp g s fin by (simp add: isLeaf_def Let_def)
      from r(1,2) ih(2) c(5) r(3) ih(3) sz
      have "fresh n' \<and> depth n' \<le> Suc (depth n)
            \<and> (u1 \<longrightarrow> depth n' = depth n \<and> size' n' = size' n)" by auto
      with e show ?thesis by blast
    next
      case nlt: False
      from Suc.IH [OF c(4) dl(2) fl(2), of t] obtain r' u1 orph1 t1 where
        s: "set' fuel t r k v = Some (Inr ((r', u1, orph1), t1))" and
        ih: "fresh r'" "depth r' \<le> Suc (depth r)"
        "u1 \<Longrightarrow> depth r' = depth r \<and> size' r' = size' r" by blast
      have x: "leftNode (set_right None (Some r') node) = Some l"
        "rightNode (set_right None (Some r') node) = Some r'"
        "hash (set_right None (Some r') node) = None"
        "\<not> persisted (set_right None (Some r') node)"
        "height (set_right None (Some r') node) \<noteq> 0"
        using c(1) False by (simp_all add: set_right_def node_def)
      from ih(2) c(5) Suc.prems(2) have dr': "depth r' \<le> 126" by arith
      have uu: "height (set_right None (Some r') node) = maxInt8 (height l) (height r') + 1
           \<and> size' (set_right None (Some r') node) = size' l + size' r'" if "u1"
      proof -
        from ih(3) [OF that] have e: "depth r' = depth r" "size' r' = size' r" by simp_all
        from dl(2) have "depth r \<le> 127" by simp
        from height_of_depth [OF ih(1) c(4) e(1) this] e(2) c(6,7)
        show ?thesis by (simp add: set_right_def node_def)
      qed
      from set_finish_fresh [OF x c(3) ih(1) dl(1) dr' uu, of u1 t1 orph1]
      obtain n' t' where
        fin: "set_finish t1 (set_right None (Some r') node) u1 orph1 = Inr ((n', u1, orph1), t')"
        and r: "fresh n'" "depth n' \<le> Suc (max (depth l) (depth r'))"
        "u1 \<Longrightarrow> depth n' = Suc (max (depth l) (depth r'))
            \<and> size' n' = size' (set_right None (Some r') node)" by blast
      have sz: "size' (set_right None (Some r') node) = size' n"
        by (simp add: set_right_def node_def)
      have e: "set' (Suc fuel) t n k v = Some (Inr ((n', u1, orph1), t'))"
        using False nlt cp g s fin by (simp add: isLeaf_def Let_def)
      from r(1,2) ih(2) c(5) r(3) ih(3) sz
      have "fresh n' \<and> depth n' \<le> Suc (depth n)
            \<and> (u1 \<longrightarrow> depth n' = depth n \<and> size' n' = size' n)" by auto
      with e show ?thesis by blast
    qed
  qed
qed

lemma remove_rebalance_fresh:
  assumes x: "leftNode X = Some a" "rightNode X = Some b" "hash X = None" "\<not> persisted X"
    and f: "fresh a" "fresh b" and d: "depth a \<le> 126" "depth b \<le> 126"
  shows "\<exists>n' t'. remove_rebalance t X nk v = Inr ((hash n', Some n', nk, v, True), t')
           \<and> fresh n' \<and> depth n' \<le> Suc (max (depth a) (depth b))"
proof -
  from rebalanced_fresh [OF x f d, of t] obtain X1 n' t' where
    "calcHeightAndSize t X = Inr X1" "balance t X1 = Inr (n', t')"
    "fresh n'" "depth n' \<le> Suc (max (depth a) (depth b))" by blast
  then show ?thesis by (simp add: remove_rebalance_def)
qed

lemma remove'_fresh:
  "fresh n \<Longrightarrow> depth n \<le> 127 \<Longrightarrow> depth n < fuel \<Longrightarrow>
   (case remove' fuel t n k of
      Some (Inr ((nh, nn, nk, v, removed), t')) \<Rightarrow>
        (\<not> removed \<longrightarrow> nn = Some n) \<and> (nn = None \<longrightarrow> nh = None)
        \<and> (\<forall>n'. nn = Some n' \<longrightarrow> fresh n' \<and> depth n' \<le> depth n)
    | _ \<Rightarrow> False)"
proof (induction fuel arbitrary: t n)
  case 0
  then show ?case by simp
next
  case (Suc fuel)
  show ?case
  proof (cases "height n = 0")
    case True
    show ?thesis
    proof (cases "bytes_Equal k (key n)")
      case eq: True
      with True have e: "remove' (Suc fuel) t n k
          = Some (Inr ((None, None, None, value' n, True), removeOrphan t n))"
        by (simp add: isLeaf_def)
      show ?thesis unfolding e by simp
    next
      case ne: False
      with True have e: "remove' (Suc fuel) t n k
          = Some (Inr ((hash n, Some n, None, None, False), t))"
        by (simp add: isLeaf_def)
      show ?thesis unfolding e using Suc.prems(1) by simp
    qed
  next
    case False
    from fresh_children [OF Suc.prems(1) False Suc.prems(2)] obtain l r where
      c: "leftNode n = Some l" "rightNode n = Some r" "fresh l" "fresh r"
         "depth n = Suc (max (depth l) (depth r))"
      by blast
    define node where "node = IAVLNode (key n) None (version n) (height n) (size' n) None
                  (leftHash n) (leftNode n) (rightHash n) (rightNode n) False"
    have cp: "copy' n = Inr node" using False by (simp add: copy'_inner node_def)
    have g: "getLeftNode t n = Inr l" "getRightNode t n = Inr r"
      using c(1,2) by (simp_all add: getLeftNode_def getRightNode_def)
    from c(5) Suc.prems(2) have dl: "depth l \<le> 126" "depth r \<le> 126" by arith+
    then have dl7: "depth l \<le> 127" "depth r \<le> 127" by simp_all
    from c(5) Suc.prems(3) have fl: "depth l < fuel" "depth r < fuel" by arith+
    show ?thesis
    proof (cases "bytes_Compare k (key n) < 0")
      case True
      from Suc.IH [OF c(3) dl7(1) fl(1), of t] obtain lh ln lk lv lrem t1 where
        s: "remove' fuel t l k = Some (Inr ((lh, ln, lk, lv, lrem), t1))" and
        ih: "ln = None \<Longrightarrow> lh = None"
        "\<And>l'. ln = Some l' \<Longrightarrow> fresh l' \<and> depth l' \<le> depth l"
        by (auto split: option.splits sum.splits)
      consider (unchanged) "\<not> lrem" | (collapse) "lrem" "lh = None \<and> ln = None"
        | (rebalance) "lrem" "\<not> (lh = None \<and> ln = None)" by blast
      then show ?thesis
      proof cases
        case unchanged
        with False True g s
        have e: "remove' (Suc fuel) t n k = Some (Inr ((hash n, Some n, None, lv, False), t1))"
          by (simp add: isLeaf_def)
        show ?thesis unfolding e using Suc.prems(1) by simp
      next
        case collapse
        with False True g s
        have e: "remove' (Suc fuel) t n k
                = Some (Inr ((rightHash n, rightNode n, key n, lv, True), t1))"
          by (simp add: isLeaf_def)
        show ?thesis unfolding e using c by simp
      next
        case rebalance
        with ih(1) obtain l' where l': "ln = Some l'" by (cases ln) auto
        from ih(2) [OF l'] have fl': "fresh l'" "depth l' \<le> depth l" by simp_all
        from rebalance False True g s cp l'
        have e: "remove' (Suc fuel) t n k
                   = Some (remove_rebalance (removeOrphan t1 n) (set_left lh (Some l') node) lk lv)"
          by (simp add: isLeaf_def Let_def)
        have x: "leftNode (set_left lh (Some l') node) = Some l'"
          "rightNode (set_left lh (Some l') node) = Some r"
          "hash (set_left lh (Some l') node) = None"
          "\<not> persisted (set_left lh (Some l') node)"
          using c(2) by (simp_all add: set_left_def node_def)
        from fl'(2) dl(1) have "depth l' \<le> 126" by simp
        from remove_rebalance_fresh [OF x fl'(1) c(4) this dl(2), of "removeOrphan t1 n" lk lv]
        obtain n' t' where
          rr: "remove_rebalance (removeOrphan t1 n) (set_left lh (Some l') node) lk lv
             = Inr ((hash n', Some n', lk, lv, True), t')"
          "fresh n'" "depth n' \<le> Suc (max (depth l') (depth r))" by blast
        show ?thesis unfolding e rr(1) using rr(2,3) fl'(2) c(5) by simp
      qed
    next
      case nlt: False
      from Suc.IH [OF c(4) dl7(2) fl(2), of t] obtain rh rn rk rv rrem t1 where
        s: "remove' fuel t r k = Some (Inr ((rh, rn, rk, rv, rrem), t1))" and
        ih: "rn = None \<Longrightarrow> rh = None"
        "\<And>r'. rn = Some r' \<Longrightarrow> fresh r' \<and> depth r' \<le> depth r"
        by (auto split: option.splits sum.splits)
      consider (unchanged) "\<not> rrem" | (collapse) "rrem" "rh = None \<and> rn = None"
        | (rebalance) "rrem" "\<not> (rh = None \<and> rn = None)" by blast
      then show ?thesis
      proof cases
        case unchanged
        with False nlt g s
        have e: "remove' (Suc fuel) t n k = Some (Inr ((hash n, Some n, None, rv, False), t1))"
          by (simp add: isLeaf_def)
        show ?thesis unfolding e using Suc.prems(1) by simp
      next
        case collapse
        with False nlt g s
        have e: "remove' (Suc fuel) t n k
                = Some (Inr ((leftHash n, leftNode n, None, rv, True), t1))"
          by (simp add: isLeaf_def)
        show ?thesis unfolding e using c by simp
      next
        case rebalance
        with ih(1) obtain r' where r': "rn = Some r'" by (cases rn) auto
        from ih(2) [OF r'] have fr: "fresh r'" "depth r' \<le> depth r" by simp_all
        define node3 where "node3 = (if rk \<noteq> None
            then set_key rk (set_right rh (Some r') node) else set_right rh (Some r') node)"
        from rebalance False nlt g s cp r'
        have e: "remove' (Suc fuel) t n k
                   = Some (remove_rebalance (removeOrphan t1 n) node3 None rv)"
          by (simp add: isLeaf_def Let_def node3_def)
        have x: "leftNode node3 = Some l" "rightNode node3 = Some r'" "hash node3 = None"
          "\<not> persisted node3"
          using c(1) by (simp_all add: node3_def set_right_def set_key_def node_def)
        from fr(2) dl(2) have "depth r' \<le> 126" by simp
        from remove_rebalance_fresh [OF x c(3) fr(1) dl(1) this, of "removeOrphan t1 n" None rv]
        obtain n' t' where
          rr: "remove_rebalance (removeOrphan t1 n) node3 None rv
             = Inr ((hash n', Some n', None, rv, True), t')"
          "fresh n'" "depth n' \<le> Suc (max (depth l) (depth r'))" by blast
        show ?thesis unfolding e rr(1) using rr(2,3) fr(2) c(5) by simp
      qed
    qed
  qed
qed


lemma apply_ops_fresh:
  "\<forall>n. root = Some n \<longrightarrow> fresh n \<and> depth n \<le> b \<Longrightarrow> b + length ops \<le> 127 \<Longrightarrow>
   127 < fuel \<Longrightarrow>
   \<exists>root' t'. apply_ops fuel t root ops = Some (Inr (root', t'))
     \<and> (\<forall>n. root' = Some n \<longrightarrow> fresh n)"
proof (induction ops arbitrary: b root t)
  case Nil
  then show ?case by simp
next
  case (Cons op ops)
  have step: "\<exists>root' t'. apply_ops fuel t1 root1 ops = Some (Inr (root', t'))
                \<and> (\<forall>n. root' = Some n \<longrightarrow> fresh n)"
    if "\<forall>n. root1 = Some n \<longrightarrow> fresh n \<and> depth n \<le> Suc b" for root1 t1
    using Cons.IH [of root1 "Suc b" t1] that Cons.prems(2,3) by simp
  show ?case
  proof (cases root)
    case None
    show ?thesis
    proof (cases op)
      case (OpSet k v)
      from step [of "Some (NewIAVLNode k v)" t] None OpSet show ?thesis
        by (simp add: NewIAVLNode_def)
    next
      case (OpRemove k)
      from step [of None t] None OpRemove show ?thesis by simp
    qed
  next
    case (Some n)
    with Cons.prems(1) have n: "fresh n" "depth n \<le> b" by simp_all
    from n(2) Cons.prems(2,3) have dn: "depth n \<le> 126" "depth n \<le> 127" "depth n < fuel"
      by simp_all
    show ?thesis
    proof (cases op)
      case (OpSet k v)
      from set'_fresh [OF n(1) dn(1,3), of t k v] obtain n' u orph t1 where
        s: "set' fuel t n k v = Some (Inr ((n', u, orph), t1))"
        and f: "fresh n'" "depth n' \<le> Suc (depth n)" by blast
      from f n(2) have "\<forall>m. Some n' = Some m \<longrightarrow> fresh m \<and> depth m \<le> Suc b" by simp
      from step [OF this, of t1] Some OpSet s show ?thesis by simp
    next
      case (OpRemove k)
      from remove'_fresh [OF n(1) dn(2,3), of t k] obtain nh nn nk v removed t1 where
        s: "remove' fuel t n k = Some (Inr ((nh, nn, nk, v, removed), t1))"
        and r: "\<not> removed \<Longrightarrow> nn = Some n" "nn = None \<Longrightarrow> nh = None"
          "\<And>n'. nn = Some n' \<Longrightarrow> fresh n' \<and> depth n' \<le> depth n"
        by (auto split: option.splits sum.splits)
      show ?thesis
      proof (cases nn)
        case None
        with r(1,2) have "nh = None" "removed" by auto
        with None step [of None t1] Some OpRemove s show ?thesis by simp
      next
        case (Some n')
        from r(3) [OF Some] n(2)
        have "\<forall>m. Some n' = Some m \<longrightarrow> fresh m \<and> depth m \<le> Suc b" by simp
        from step [OF this, of t1] obtain root' t' where
          a: "apply_ops fuel t1 (Some n') ops = Some (Inr (root', t'))"
            "\<forall>n. root' = Some n \<longrightarrow> fresh n" by blast
        have "apply_ops fuel t (Some n) (OpRemove k # ops) = apply_ops fuel t1 (Some n') ops"
          using s Some r(1) by (cases removed) auto
        with a \<open>root = Some n\<close> OpRemove show ?thesis by simp
      qed
    qed
  qed
qed

lemma built_fresh:
  assumes "length ops \<le> 127" "127 < fuel"
  shows "\<exists>root t'. apply_ops fuel t None ops = Some (Inr (root, t')) \<and> fresh_tree root"
proof -
  have "\<forall>n. (None :: IAVLNode option) = Some n \<longrightarrow> fresh n \<and> depth n \<le> 0" by simp
  from apply_ops_fresh [OF this, of ops fuel t] assms obtain root t' where
    "apply_ops fuel t None ops = Some (Inr (root, t'))" "\<forall>n. root = Some n \<longrightarrow> fresh n"
    by auto
  then show ?thesis by (cases root) (auto simp: fresh_tree_def)
qed

subsection \<open>The scenarios\<close>

lemma apply_seq_abc:
  "apply_ops (Suc (Suc fuel)) no_store None seq_abc = Some (Inr (Some tree_abc, no_store))"
  by (simp add: seq_abc_def tree_abc_def scenario_defs node_ops cong: eval_cong)

lemma apply_seq_cab_b:
  "apply_ops (Suc (Suc (Suc fuel))) no_store None seq_cab_b
     = Some (Inr (Some tree_cab, no_store))"
  by (simp add: seq_cab_b_def tree_cab_def scenario_defs node_ops cong: eval_cong)

lemma apply_seq_bcda_d:
  "apply_ops (Suc (Suc (Suc fuel))) no_store None seq_bcda_d
     = Some (Inr (Some tree_cab, no_store))"
  by (simp add: seq_bcda_d_def tree_cab_def scenario_defs node_ops cong: eval_cong)

lemma apply_seq_cab:
  "apply_ops (Suc (Suc (Suc fuel))) no_store None seq_cab
     = Some (Inr (Some tree_cab, no_store))"
  by (simp add: seq_cab_def tree_cab_def scenario_defs node_ops cong: eval_cong)

lemma apply_seq_cab_reset:
  "apply_ops (Suc (Suc (Suc fuel))) no_store None (seq_cab_reset x)
     = Some (Inr (Some tree_cab, no_store))"
  by (simp add: seq_cab_reset_def tree_cab_def scenario_defs node_ops cong: eval_cong)

lemma fresh_tree_cab: "fresh tree_cab"
  by (simp add: tree_cab_def scenario_defs NewIAVLNode_def maxInt8_def)

lemma shape_of_trees:
  "shape_of tree_abc
     = Some (Fork (Entry [0x61] [0x31] 0) (Fork (Entry [0x62] [0x32] 0) (Entry [0x63] [0x33] 0)))"
  "shape_of tree_cab
     = Some (Fork (Fork (Entry [0x61] [0x31] 0) (Entry [0x62] [0x32] 0)) (Entry [0x63] [0x33] 0))"
  by (simp_all add: tree_abc_def tree_cab_def scenario_defs NewIAVLNode_def the_bytes_def)

lemma root_hash_cab:
  "root_hash (Suc (Suc (Suc fuel))) seq_cab = Some (Inr (Some hash_cab))"
  "root_hash (Suc (Suc (Suc fuel))) (seq_cab_reset x) = Some (Inr (Some hash_cab))"
  using hashWithCount_tree_cab
  by (simp_all add: root_hash_of_result [OF apply_seq_cab]
        root_hash_of_result [OF apply_seq_cab_reset])

text \<open>
  Claim C2, as amended. Take two lists of inserts and deletes, each applied to the empty
  tree, whose trees are as \<^verbatim>\<open>set\<close> and \<^verbatim>\<open>remove\<close> build them (\<open>fresh_tree\<close>) and have the
  same shape with the same entries: then \<^verbatim>\<open>hashWithCount\<close> succeeds on both roots and
  the root hashes are equal. Every list of at most 127 operations, run with fuel above
  127, returns such a tree, whatever the node store. Replacing an intermediate value does
  not change the root hash: inserting \<^verbatim>\<open>"c"\<close>, \<^verbatim>\<open>"a"\<close> and \<^verbatim>\<open>"b"\<close> with any value and
  then setting \<^verbatim>\<open>"b"\<close> to \<^verbatim>\<open>"2"\<close> gives the root hash of inserting \<^verbatim>\<open>"c"\<close>, \<^verbatim>\<open>"a"\<close>
  and \<^verbatim>\<open>"b"\<close> with \<^verbatim>\<open>"2"\<close>. The final key-to-value mapping alone does not fix the root
  hash, since the shape depends on the order of the operations.
\<close>

theorem root_hash_determined_by_shape:
  "(\<forall>fuel1 fuel2 ops1 ops2 root1 root2 t1 t2.
      apply_ops fuel1 no_store None ops1 = Some (Inr (root1, t1)) \<longrightarrow>
      apply_ops fuel2 no_store None ops2 = Some (Inr (root2, t2)) \<longrightarrow>
      fresh_tree root1 \<longrightarrow> fresh_tree root2 \<longrightarrow> same_shape root1 root2 \<longrightarrow>
      root_hash fuel1 ops1 = root_hash fuel2 ops2
      \<and> (\<exists>h. root_hash fuel1 ops1 = Some (Inr h)))
   \<and> (\<forall>fuel ops t.
        length ops \<le> 127 \<longrightarrow> 127 < fuel \<longrightarrow>
        (\<exists>root t'. apply_ops fuel t None ops = Some (Inr (root, t')) \<and> fresh_tree root))
   \<and> (\<forall>x. root_hash 3 (seq_cab_reset x) = root_hash 3 seq_cab
           \<and> root_hash 3 seq_cab = Some (Inr (Some hash_cab)))"
proof (intro conjI allI impI)
  fix fuel1 fuel2 ops1 ops2 root1 root2 t1 t2
  assume a: "apply_ops fuel1 no_store None ops1 = Some (Inr (root1, t1))"
    "apply_ops fuel2 no_store None ops2 = Some (Inr (root2, t2))"
    "fresh_tree root1" "fresh_tree root2" "same_shape root1 root2"
  from same_shape_same_root_hash [OF a]
  show "root_hash fuel1 ops1 = root_hash fuel2 ops2"
    and "\<exists>h. root_hash fuel1 ops1 = Some (Inr h)" by blast+
next
  fix fuel :: nat and ops :: "tree_op list" and t
  assume "length ops \<le> 127" "127 < fuel"
  then show "\<exists>root t'. apply_ops fuel t None ops = Some (Inr (root, t')) \<and> fresh_tree root"
    by (rule built_fresh)
next
  have n3: "(3::nat) = Suc (Suc (Suc 0))" by simp
  fix x
  show "root_hash 3 (seq_cab_reset x) = root_hash 3 seq_cab"
    and "root_hash 3 seq_cab = Some (Inr (Some hash_cab))"
    unfolding n3 by (simp_all add: root_hash_cab)
qed

text \<open>
  Witness for claim C2 as amended: the second order of S6, and a list with four inserts
  and a delete, are different lists that build the same tree, with the same root hash;
  the second list has five operations and returns with fuel 128.
\<close>

theorem root_hash_determined_by_shape_witness:
  "apply_ops 3 no_store None seq_cab_b = Some (Inr (Some tree_cab, no_store))
   \<and> apply_ops 3 no_store None seq_bcda_d = Some (Inr (Some tree_cab, no_store))
   \<and> seq_cab_b \<noteq> seq_bcda_d
   \<and> fresh_tree (Some tree_cab)
   \<and> same_shape (Some tree_cab) (Some tree_cab)
   \<and> root_hash 3 seq_cab_b = root_hash 3 seq_bcda_d
   \<and> root_hash 3 seq_bcda_d = Some (Inr (Some hash_cab))
   \<and> length seq_bcda_d \<le> 127 \<and> (127::nat) < 128
   \<and> apply_ops 128 no_store None seq_bcda_d = Some (Inr (Some tree_cab, no_store))
   \<and> (\<exists>root t'. apply_ops 128 no_store None seq_bcda_d = Some (Inr (root, t'))
                  \<and> fresh_tree root)"
proof -
  have n3: "(3::nat) = Suc (Suc (Suc 0))" by simp
  have n128: "(128::nat) = Suc (Suc (Suc 125))" by simp
  have a: "apply_ops 3 no_store None seq_cab_b = Some (Inr (Some tree_cab, no_store))"
    unfolding n3 by (rule apply_seq_cab_b)
  have b: "apply_ops 3 no_store None seq_bcda_d = Some (Inr (Some tree_cab, no_store))"
    unfolding n3 by (rule apply_seq_bcda_d)
  have b128: "apply_ops 128 no_store None seq_bcda_d = Some (Inr (Some tree_cab, no_store))"
    unfolding n128 by (rule apply_seq_bcda_d)
  have c: "seq_cab_b \<noteq> seq_bcda_d"
    by (simp add: seq_cab_b_def seq_bcda_d_def)
  have f: "fresh_tree (Some tree_cab)" by (simp add: fresh_tree_def fresh_tree_cab)
  have s: "same_shape (Some tree_cab) (Some tree_cab)" by (simp add: same_shape_def)
  have l: "length seq_bcda_d \<le> 127" "(127::nat) < 128" by (simp_all add: seq_bcda_d_def)
  have h: "root_hash 3 seq_bcda_d = Some (Inr (Some hash_cab))"
    using root_hash_of_result [OF b] hashWithCount_tree_cab by simp
  note t = root_hash_determined_by_shape
  from t [THEN conjunct1, rule_format, OF a b f f s]
  have e: "root_hash 3 seq_cab_b = root_hash 3 seq_bcda_d" by simp
  from t [THEN conjunct2, THEN conjunct1, rule_format, OF l]
  have g: "\<exists>root t'. apply_ops 128 no_store None seq_bcda_d = Some (Inr (root, t'))
                  \<and> fresh_tree root" .
  from a b c f s e h l b128 g show ?thesis by blast
qed

lemma leaves_trees:
  "leaves tree_abc = [([97], [49]), ([98], [50]), ([99], [51])]"
  "leaves tree_cab = [([97], [49]), ([98], [50]), ([99], [51])]"
  by (simp_all add: tree_abc_def tree_cab_def scenario_defs NewIAVLNode_def the_bytes_def)

lemma hashes_differ: "hash_abc \<noteq> hash_cab"
  by (simp add: hash_abc_def hash_cab_def)

text \<open>
  Claim C2, as stated, fails. Inserting \<^verbatim>\<open>"a"\<close>, \<^verbatim>\<open>"b"\<close>, \<^verbatim>\<open>"c"\<close>, and inserting
  \<^verbatim>\<open>"c"\<close>, \<^verbatim>\<open>"a"\<close>, \<^verbatim>\<open>"b"\<close> and then setting \<^verbatim>\<open>"b"\<close> again, end in the same entries,
  in trees of different shape and with different root hashes.
\<close>

theorem root_hash_depends_on_order:
  "apply_ops 3 no_store None seq_abc = Some (Inr (Some tree_abc, no_store))
   \<and> apply_ops 3 no_store None seq_cab_b = Some (Inr (Some tree_cab, no_store))
   \<and> leaves tree_abc = leaves tree_cab
   \<and> root_hash 3 seq_abc = Some (Inr (Some hash_abc))
   \<and> root_hash 3 seq_cab_b = Some (Inr (Some hash_cab))
   \<and> root_hash 3 seq_abc \<noteq> root_hash 3 seq_cab_b"
proof -
  have n3: "(3::nat) = Suc (Suc (Suc 0))" by simp
  have a: "apply_ops 3 no_store None seq_abc = Some (Inr (Some tree_abc, no_store))"
    unfolding n3 by (rule apply_seq_abc)
  have b: "apply_ops 3 no_store None seq_cab_b = Some (Inr (Some tree_cab, no_store))"
    unfolding n3 by (rule apply_seq_cab_b)
  have c: "root_hash 3 seq_abc = Some (Inr (Some hash_abc))"
    using a hashWithCount_tree_abc
    by (auto simp: root_hash_def no_store_def split: sum.splits)
  have d: "root_hash 3 seq_cab_b = Some (Inr (Some hash_cab))"
    using b hashWithCount_tree_cab
    by (auto simp: root_hash_def no_store_def split: sum.splits)
  show ?thesis
    using a b c d hashes_differ by (simp add: leaves_trees)
qed

section \<open>Scenario S3: inserting c, b, a\<close>

text \<open>
  Claim C3, as amended. Inserting \<^verbatim>\<open>"c"\<close>, \<^verbatim>\<open>"b"\<close>, \<^verbatim>\<open>"a"\<close> in that order into an
  empty tree triggers no rotation: with fuel for two nested calls or more, the result is
  a root with separator \<^verbatim>\<open>"c"\<close>, height 2 and size 3, whose left child is the inner node
  with separator \<^verbatim>\<open>"b"\<close> over the leaves \<^verbatim>\<open>"a"\<close> and \<^verbatim>\<open>"b"\<close> (height 1, size 2) and
  whose right child is the leaf \<^verbatim>\<open>"c"\<close>. Values live in leaves only, so three keys
  need height 2, and the balance factor of the root is 1.
\<close>

theorem insert_c_b_a:
  "apply_ops (Suc (Suc fuel)) no_store None [OpSet key_c val_3, OpSet key_b val_2, OpSet key_a val_1]
     = Some (Inr (Some s3_tree, no_store))
   \<and> key s3_tree = key_c \<and> height s3_tree = 2 \<and> size' s3_tree = 3
   \<and> leftNode s3_tree = Some (inner key_b 1 2 leaf_a leaf_b)
   \<and> rightNode s3_tree = Some leaf_c
   \<and> calcBalance no_store s3_tree = Inr 1"
  by (simp add: s3_tree_def scenario_defs node_ops cong: eval_cong)

text \<open>
  Claim C3, as stated, fails: after \<^verbatim>\<open>"c"\<close>, \<^verbatim>\<open>"b"\<close>, \<^verbatim>\<open>"a"\<close> the root's separator is
  not \<^verbatim>\<open>"b"\<close>, its height is not 1, and its left child is not the leaf \<^verbatim>\<open>"a"\<close>.
\<close>

theorem insert_c_b_a_not_rotated:
  "apply_ops 2 no_store None [OpSet key_c val_3, OpSet key_b val_2, OpSet key_a val_1]
     = Some (Inr (Some s3_tree, no_store))
   \<and> \<not> bytes_Equal (key s3_tree) key_b
   \<and> height s3_tree \<noteq> 1
   \<and> leftNode s3_tree \<noteq> Some leaf_a
   \<and> rightNode s3_tree = Some leaf_c"
  by (simp add: set'_numeral s3_tree_def scenario_defs node_ops cong: eval_cong)

section \<open>Deletion: a child that collapses\<close>

text \<open>
  Claim C4. In \<^verbatim>\<open>remove\<close> on an inner node, when the call on the left child returns
  \<^verbatim>\<open>removed\<close> with neither hash nor node, the result is the right child (its hash and its
  node) with the node's own key as \<^verbatim>\<open>newKey\<close>; when the call on the right child does,
  the result is the left child with \<^verbatim>\<open>newKey = nil\<close>. After inserting \<^verbatim>\<open>"c"\<close>, \<^verbatim>\<open>"b"\<close>,
  \<^verbatim>\<open>"a"\<close>, removing \<^verbatim>\<open>"a"\<close> returns \<^verbatim>\<open>removed = true\<close>, the value of \<^verbatim>\<open>"a"\<close>, and a root
  that is one inner node with separator \<^verbatim>\<open>"c"\<close>, left leaf \<^verbatim>\<open>"b"\<close>, right leaf \<^verbatim>\<open>"c"\<close>,
  size 2 and height 1.
\<close>

theorem remove_collapse:
  "(\<forall>fuel t node k l newKey v t1.
      \<not> isLeaf node \<longrightarrow> bytes_Compare k (key node) < 0 \<longrightarrow> getLeftNode t node = Inr l \<longrightarrow>
      remove' fuel t l k = Some (Inr ((None, None, newKey, v, True), t1)) \<longrightarrow>
      remove' (Suc fuel) t node k
        = Some (Inr ((rightHash node, rightNode node, key node, v, True), t1)))
   \<and> (\<forall>fuel t node k r newKey v t1.
      \<not> isLeaf node \<longrightarrow> \<not> bytes_Compare k (key node) < 0 \<longrightarrow> getRightNode t node = Inr r \<longrightarrow>
      remove' fuel t r k = Some (Inr ((None, None, newKey, v, True), t1)) \<longrightarrow>
      remove' (Suc fuel) t node k
        = Some (Inr ((leftHash node, leftNode node, None, v, True), t1)))
   \<and> (\<forall>fuel.
      apply_ops (Suc (Suc fuel)) no_store None [OpSet key_c val_3, OpSet key_b val_2, OpSet key_a val_1]
        = Some (Inr (Some s3_tree, no_store))
      \<and> remove' (Suc (Suc (Suc fuel))) no_store s3_tree key_a
        = Some (Inr ((None, Some s5_tree, key_b, val_1, True), no_store))
      \<and> s5_tree = inner key_c 1 2 leaf_b leaf_c
      \<and> key s5_tree = key_c \<and> size' s5_tree = 2 \<and> height s5_tree = 1
      \<and> leftNode s5_tree = Some leaf_b \<and> rightNode s5_tree = Some leaf_c
      \<and> isLeaf leaf_b \<and> isLeaf leaf_c \<and> value' leaf_a = val_1)"
proof (intro conjI allI impI)
  fix fuel
  show "apply_ops (Suc (Suc fuel)) no_store None [OpSet key_c val_3, OpSet key_b val_2, OpSet key_a val_1]
        = Some (Inr (Some s3_tree, no_store))"
    by (simp add: s3_tree_def scenario_defs node_ops cong: eval_cong)
  show "remove' (Suc (Suc (Suc fuel))) no_store s3_tree key_a
        = Some (Inr ((None, Some s5_tree, key_b, val_1, True), no_store))"
    by (simp add: s3_tree_def s5_tree_def scenario_defs node_ops cong: eval_cong)
qed (simp_all add: s5_tree_def scenario_defs node_ops)

text \<open>
  Witness for claim C4: both collapses on the two-key tree of S2, removing \<^verbatim>\<open>"a"\<close>
  (left) and removing \<^verbatim>\<open>"b"\<close> (right).
\<close>

theorem remove_collapse_witness:
  "\<not> isLeaf (inner key_b 1 2 leaf_a leaf_b)
   \<and> bytes_Compare key_a (key (inner key_b 1 2 leaf_a leaf_b)) < 0
   \<and> getLeftNode no_store (inner key_b 1 2 leaf_a leaf_b) = Inr leaf_a
   \<and> remove' 1 no_store leaf_a key_a = Some (Inr ((None, None, None, val_1, True), no_store))
   \<and> remove' 2 no_store (inner key_b 1 2 leaf_a leaf_b) key_a
        = Some (Inr ((None, Some leaf_b, key_b, val_1, True), no_store))
   \<and> \<not> bytes_Compare key_b (key (inner key_b 1 2 leaf_a leaf_b)) < 0
   \<and> getRightNode no_store (inner key_b 1 2 leaf_a leaf_b) = Inr leaf_b
   \<and> remove' 1 no_store leaf_b key_b = Some (Inr ((None, None, None, val_2, True), no_store))
   \<and> remove' 2 no_store (inner key_b 1 2 leaf_a leaf_b) key_b
        = Some (Inr ((None, Some leaf_a, None, val_2, True), no_store))"
proof -
  let ?n = "inner key_b 1 2 leaf_a leaf_b"
  have h1: "\<not> isLeaf ?n" by (simp add: scenario_defs node_ops)
  have h2: "bytes_Compare key_a (key ?n) < 0" by (simp add: scenario_defs node_ops)
  have h3: "getLeftNode no_store ?n = Inr leaf_a" by (simp add: scenario_defs node_ops)
  have h4: "remove' (Suc 0) no_store leaf_a key_a = Some (Inr ((None, None, None, val_1, True), no_store))"
    by (simp add: scenario_defs node_ops)
  have h5: "\<not> bytes_Compare key_b (key ?n) < 0" by (simp add: scenario_defs node_ops)
  have h6: "getRightNode no_store ?n = Inr leaf_b" by (simp add: scenario_defs node_ops)
  have h7: "remove' (Suc 0) no_store leaf_b key_b = Some (Inr ((None, None, None, val_2, True), no_store))"
    by (simp add: scenario_defs node_ops)
  from remove_collapse have
    L: "\<And>fuel t node k l newKey v t1.
      \<not> isLeaf node \<Longrightarrow> bytes_Compare k (key node) < 0 \<Longrightarrow> getLeftNode t node = Inr l \<Longrightarrow>
      remove' fuel t l k = Some (Inr ((None, None, newKey, v, True), t1)) \<Longrightarrow>
      remove' (Suc fuel) t node k
        = Some (Inr ((rightHash node, rightNode node, key node, v, True), t1))"
    and R: "\<And>fuel t node k r newKey v t1.
      \<not> isLeaf node \<Longrightarrow> \<not> bytes_Compare k (key node) < 0 \<Longrightarrow> getRightNode t node = Inr r \<Longrightarrow>
      remove' fuel t r k = Some (Inr ((None, None, newKey, v, True), t1)) \<Longrightarrow>
      remove' (Suc fuel) t node k
        = Some (Inr ((leftHash node, leftNode node, None, v, True), t1))"
    by blast+
  have a: "remove' (Suc (Suc 0)) no_store ?n key_a
        = Some (Inr ((rightHash ?n, rightNode ?n, key ?n, val_1, True), no_store))"
    by (rule L [OF h1 h2 h3 h4])
  have b: "remove' (Suc (Suc 0)) no_store ?n key_b
        = Some (Inr ((leftHash ?n, leftNode ?n, None, val_2, True), no_store))"
    by (rule R [OF h1 h5 h6 h7])
  have n2: "(2::nat) = Suc (Suc 0)" by simp
  show ?thesis
    using h1 h2 h3 h4 h5 h6 h7 a b unfolding n2
    by (simp add: inner_def)
qed

section \<open>Store-bytes read back\<close>

lemma MakeIAVLNode_writeBytes:
  assumes "encodable n"
  shows "\<exists>buf. writeBytes n = Inr (buf, int (length buf))
               \<and> MakeIAVLNode buf = Inr (stored_form n)"
proof (cases "isLeaf n")
  case True
  with assms have k: "length (the_bytes (key n)) < 2 ^ 63"
    and v: "length (the_bytes (value' n)) < 2 ^ 63"
    by (simp_all add: encodable_def go_slice_def)
  from True show ?thesis
    by (simp add: writeBytes_def MakeIAVLNode_def WriteInt8_def Let_def stored_form_def
        GetVarint_WriteVarint GetByteSlice_WriteByteSlice [OF k]
        GetByteSlice_WriteByteSlice [OF v, of "[]", simplified]
        GetUint64_WriteUint64 length_WriteUint64 isLeaf_def)
next
  case False
  with assms have k: "length (the_bytes (key n)) < 2 ^ 63"
    and l: "length (the_bytes (leftHash n)) < 2 ^ 63"
    and r: "length (the_bytes (rightHash n)) < 2 ^ 63"
    and nn: "leftHash n \<noteq> None" "rightHash n \<noteq> None"
    by (simp_all add: encodable_def go_slice_def)
  from False nn show ?thesis
    by (simp add: writeBytes_def MakeIAVLNode_def WriteInt8_def Let_def stored_form_def
        GetVarint_WriteVarint GetByteSlice_WriteByteSlice [OF k]
        GetByteSlice_WriteByteSlice [OF l]
        GetByteSlice_WriteByteSlice [OF r, of "[]", simplified]
        GetUint64_WriteUint64 length_WriteUint64 isLeaf_def)
qed

lemma stored_form_fields:
  "height (stored_form n) = height n \<and> size' (stored_form n) = size' n
   \<and> version (stored_form n) = version n \<and> bytes_Equal (key (stored_form n)) (key n)
   \<and> (isLeaf n \<longrightarrow> bytes_Equal (value' (stored_form n)) (value' n))
   \<and> (\<not> isLeaf n \<longrightarrow> bytes_Equal (leftHash (stored_form n)) (leftHash n)
                     \<and> bytes_Equal (rightHash (stored_form n)) (rightHash n))
   \<and> leftNode (stored_form n) = None \<and> rightNode (stored_form n) = None
   \<and> hash (stored_form n) = None \<and> \<not> persisted (stored_form n)"
  by (simp add: stored_form_def bytes_Equal_def the_bytes_def)

text \<open>
  Claim C5, as amended. For every node that \<^verbatim>\<open>writeBytes\<close> accepts (a leaf, or an inner
  node with both child hashes set; slices of Go's lengths), the encoding succeeds and
  \<^verbatim>\<open>MakeIAVLNode\<close> on its bytes returns a node with the same height, size, version and
  key, the same value for a leaf, and the same two child hashes for an inner node, byte
  for byte. The decoded node has no child in memory, no hash and \<^verbatim>\<open>persisted = false\<close>:
  beside \<^verbatim>\<open>hash\<close> and \<^verbatim>\<open>persisted\<close>, the references \<^verbatim>\<open>leftNode\<close> and \<^verbatim>\<open>rightNode\<close> are not
  reproduced.
\<close>

theorem decode_storeBytes:
  "encodable n \<Longrightarrow>
   \<exists>buf. writeBytes n = Inr (buf, int (length buf))
     \<and> MakeIAVLNode buf = Inr (stored_form n)
     \<and> height (stored_form n) = height n \<and> size' (stored_form n) = size' n
     \<and> version (stored_form n) = version n \<and> bytes_Equal (key (stored_form n)) (key n)
     \<and> (isLeaf n \<longrightarrow> bytes_Equal (value' (stored_form n)) (value' n))
     \<and> (\<not> isLeaf n \<longrightarrow> bytes_Equal (leftHash (stored_form n)) (leftHash n)
                       \<and> bytes_Equal (rightHash (stored_form n)) (rightHash n))
     \<and> leftNode (stored_form n) = None \<and> rightNode (stored_form n) = None
     \<and> hash (stored_form n) = None \<and> \<not> persisted (stored_form n)"
  using MakeIAVLNode_writeBytes [of n] stored_form_fields [of n] by blast

lemma encodable_scenarios:
  "encodable leaf_a" "encodable s2_persisted" "encodable s2_hashed"
  by (simp_all add: encodable_def go_slice_def the_bytes_def isLeaf_def leaf_a_def
        NewIAVLNode_def key_a_def key_b_def val_1_def s2_persisted_def s2_hashed_def
        length_hashes)

lemma stored_form_scenarios:
  "stored_form leaf_a = leaf_a"
  "stored_form s2_persisted
     = IAVLNode key_b None 0 1 2 None (Some hash_leaf_a) None (Some hash_leaf_b) None False"
  "stored_form s2_hashed
     = IAVLNode key_b None 0 1 2 None (Some hash_leaf_a) None (Some hash_leaf_b) None False"
  by (simp_all add: stored_form_def the_bytes_def isLeaf_def leaf_a_def
        NewIAVLNode_def key_a_def key_b_def val_1_def s2_persisted_def s2_hashed_def)

text \<open>
  Witness for claim C5 as amended: the leaf \<^verbatim>\<open>("a", "1")\<close>, which is read back as it
  is, and the persisted root of S2, which is read back without its hash and its
  \<^verbatim>\<open>persisted\<close> flag.
\<close>

theorem decode_storeBytes_witness:
  "encodable leaf_a
   \<and> (\<exists>buf. writeBytes leaf_a = Inr (buf, int (length buf)) \<and> MakeIAVLNode buf = Inr leaf_a)
   \<and> encodable s2_persisted
   \<and> (\<exists>buf. writeBytes s2_persisted = Inr (buf, int (length buf))
          \<and> MakeIAVLNode buf
              = Inr (IAVLNode key_b None 0 1 2 None (Some hash_leaf_a) None
                       (Some hash_leaf_b) None False))
   \<and> hash s2_persisted = Some hash_ab \<and> persisted s2_persisted"
proof -
  from decode_storeBytes [OF encodable_scenarios(1)]
  have a: "\<exists>buf. writeBytes leaf_a = Inr (buf, int (length buf)) \<and> MakeIAVLNode buf = Inr leaf_a"
    unfolding stored_form_scenarios by blast
  from decode_storeBytes [OF encodable_scenarios(2)]
  have b: "\<exists>buf. writeBytes s2_persisted = Inr (buf, int (length buf))
          \<and> MakeIAVLNode buf
              = Inr (IAVLNode key_b None 0 1 2 None (Some hash_leaf_a) None
                       (Some hash_leaf_b) None False)"
    unfolding stored_form_scenarios by blast
  show ?thesis
    using a b encodable_scenarios by (simp add: s2_persisted_def)
qed

lemma writeBytes_s2_hashed:
  "writeBytes s2_hashed
     = Inr ([1, 4, 2, 98, 0, 0, 0, 0, 0, 0, 0, 0] @ (40 # hash_leaf_a) @ (40 # hash_leaf_b), 54)"
  by (simp add: writeBytes_def s2_hashed_def isLeaf_def Let_def key_b_def
        WriteInt8_def WriteVarint_small WriteUint64_0 WriteByteSlice_one WriteByteSlice_hash
        length_hashes)

text \<open>
  Claim C5, as stated, fails: the root of S2 after hashing has both children in memory;
  its store-bytes decode to a node with no child in memory, which differs from it in
  \<^verbatim>\<open>leftNode\<close> and \<^verbatim>\<open>rightNode\<close>, attributes other than \<^verbatim>\<open>hash\<close> and \<^verbatim>\<open>persisted\<close>.
\<close>

theorem decode_storeBytes_drops_children:
  "writeBytes s2_hashed
     = Inr ([1, 4, 2, 98, 0, 0, 0, 0, 0, 0, 0, 0] @ (40 # hash_leaf_a) @ (40 # hash_leaf_b), 54)
   \<and> MakeIAVLNode ([1, 4, 2, 98, 0, 0, 0, 0, 0, 0, 0, 0] @ (40 # hash_leaf_a) @ (40 # hash_leaf_b))
       = Inr (IAVLNode key_b None 0 1 2 None (Some hash_leaf_a) None (Some hash_leaf_b) None False)
   \<and> leftNode s2_hashed = Some (set_hash (Some hash_leaf_a) leaf_a)
   \<and> \<not> same_except_hash_persisted
         (IAVLNode key_b None 0 1 2 None (Some hash_leaf_a) None (Some hash_leaf_b) None False)
         s2_hashed"
proof -
  from MakeIAVLNode_writeBytes [OF encodable_scenarios(3)]
  have "MakeIAVLNode ([1, 4, 2, 98, 0, 0, 0, 0, 0, 0, 0, 0] @ (40 # hash_leaf_a) @ (40 # hash_leaf_b))
       = Inr (IAVLNode key_b None 0 1 2 None (Some hash_leaf_a) None (Some hash_leaf_b) None False)"
    unfolding stored_form_scenarios writeBytes_s2_hashed by blast
  then show ?thesis
    using writeBytes_s2_hashed
    by (simp add: same_except_hash_persisted_def s2_hashed_def)
qed

text \<open>
  Before hashing, the root of S2 has no child hash, and \<^verbatim>\<open>writeBytes\<close> stops with a
  panic: there are no bytes to decode.
\<close>

theorem writeBytes_without_child_hash_panics:
  "writeBytes s2_tree = Inl (PanicSanity ''node.leftHash was nil in writeBytes'')"
  by (simp add: writeBytes_def s2_tree_def inner_def isLeaf_def)

section \<open>Hash-bytes\<close>

lemma WriteUint64_inject: "WriteUint64 a = WriteUint64 b \<Longrightarrow> a = b"
proof -
  assume "WriteUint64 a = WriteUint64 b"
  then have "GetUint64 (WriteUint64 a @ []) = GetUint64 (WriteUint64 b @ [])" by simp
  then show "a = b" unfolding GetUint64_WriteUint64 by simp
qed

lemma writeHashBytes_bytes:
  assumes "writeHashBytes n = Inr (buf, cnt, c, n')"
  shows "buf = WriteInt8 (height n) @ WriteVarint (size' n)
           @ (if isLeaf n then
                WriteByteSlice (key n) @ WriteByteSlice (value' n) @ WriteUint64 (version n)
              else WriteByteSlice (leftHash n') @ WriteByteSlice (rightHash n'))"
  using assms
  by (cases n) (auto simp: isLeaf_def Let_def split: if_splits sum.splits option.splits)

lemma writeHashBytes_child_hashes:
  assumes "writeHashBytes n = Inr (buf, cnt, c, n')" and "\<not> isLeaf n"
  shows "(case leftNode n of
            None \<Rightarrow> leftHash n' = leftHash n
          | Some l \<Rightarrow> map_sum id fst (hashWithCount l) = Inr (leftHash n'))
       \<and> (case rightNode n of
            None \<Rightarrow> rightHash n' = rightHash n
          | Some r \<Rightarrow> map_sum id fst (hashWithCount r) = Inr (rightHash n'))"
  using assms
  by (cases n) (auto simp: isLeaf_def Let_def split: if_splits sum.splits option.splits)

lemma writeHashBytes_inner_key_version:
  assumes "\<not> isLeaf n"
  shows "map_sum id fst (writeHashBytes (set_version ver (set_key k n)))
           = map_sum id fst (writeHashBytes n)"
  using assms
  by (cases n)
     (auto simp: isLeaf_def Let_def set_version_def set_key_def
           split: if_splits sum.splits option.splits)

lemma writeHashBytes_leaf_version:
  assumes "isLeaf n" and "ver \<noteq> version n"
  shows "map_sum id fst (writeHashBytes (set_version ver n)) \<noteq> map_sum id fst (writeHashBytes n)"
  using assms
  by (cases n) (auto simp: isLeaf_def Let_def set_version_def dest: WriteUint64_inject)

lemma hashWithCount_digest:
  assumes "hash n = None" and "writeHashBytes n = Inr (buf, cnt, c, n')"
  shows "hashWithCount n = Inr (Some (ripemd160 buf), c + 1, set_hash (Some (ripemd160 buf)) n')"
  using assms by (cases n) (simp add: Let_def del: writeHashBytes.simps)

text \<open>
  Claim C6. The bytes that \<^verbatim>\<open>writeHashBytes\<close> emits are the height, then the size, then
  for a leaf its key, value and version, and for an inner node the two child hashes
  only, each the hash of the child in memory where there is one and the stored child
  hash otherwise; the hash of a node with no cached hash is the digest of these bytes.
  For an inner node, replacing the separator key and the version changes neither the
  bytes nor the outcome; for a leaf, another version gives other bytes.
\<close>

theorem writeHashBytes_layout:
  "(\<forall>buf cnt c n'. writeHashBytes n = Inr (buf, cnt, c, n') \<longrightarrow>
      buf = WriteInt8 (height n) @ WriteVarint (size' n)
              @ (if isLeaf n then
                   WriteByteSlice (key n) @ WriteByteSlice (value' n) @ WriteUint64 (version n)
                 else WriteByteSlice (leftHash n') @ WriteByteSlice (rightHash n'))
      \<and> (\<not> isLeaf n \<longrightarrow>
           (case leftNode n of
              None \<Rightarrow> leftHash n' = leftHash n
            | Some l \<Rightarrow> map_sum id fst (hashWithCount l) = Inr (leftHash n'))
         \<and> (case rightNode n of
              None \<Rightarrow> rightHash n' = rightHash n
            | Some r \<Rightarrow> map_sum id fst (hashWithCount r) = Inr (rightHash n')))
      \<and> (hash n = None \<longrightarrow> map_sum id fst (hashWithCount n) = Inr (Some (ripemd160 buf))))
   \<and> (\<not> isLeaf n \<longrightarrow>
        (\<forall>k ver. map_sum id fst (writeHashBytes (set_version ver (set_key k n)))
                   = map_sum id fst (writeHashBytes n)))
   \<and> (isLeaf n \<longrightarrow>
        (\<forall>ver. ver \<noteq> version n \<longrightarrow>
           map_sum id fst (writeHashBytes (set_version ver n))
             \<noteq> map_sum id fst (writeHashBytes n)))"
proof (intro conjI allI impI)
  fix buf cnt c n'
  assume w: "writeHashBytes n = Inr (buf, cnt, c, n')"
  then show "buf = WriteInt8 (height n) @ WriteVarint (size' n)
              @ (if isLeaf n then
                   WriteByteSlice (key n) @ WriteByteSlice (value' n) @ WriteUint64 (version n)
                 else WriteByteSlice (leftHash n') @ WriteByteSlice (rightHash n'))"
    by (rule writeHashBytes_bytes)
  {
    assume nl: "\<not> isLeaf n"
    from writeHashBytes_child_hashes [OF w nl]
    show "case leftNode n of
              None \<Rightarrow> leftHash n' = leftHash n
            | Some l \<Rightarrow> map_sum id fst (hashWithCount l) = Inr (leftHash n')"
      by (rule conjunct1)
    from writeHashBytes_child_hashes [OF w nl]
    show "case rightNode n of
              None \<Rightarrow> rightHash n' = rightHash n
            | Some r \<Rightarrow> map_sum id fst (hashWithCount r) = Inr (rightHash n')"
      by (rule conjunct2)
  }
  {
    assume "hash n = None"
    from hashWithCount_digest [OF this w]
    show "map_sum id fst (hashWithCount n) = Inr (Some (ripemd160 buf))" by simp
  }
next
  fix k ver
  assume "\<not> isLeaf n"
  then show "map_sum id fst (writeHashBytes (set_version ver (set_key k n)))
                   = map_sum id fst (writeHashBytes n)"
    by (rule writeHashBytes_inner_key_version)
next
  fix ver
  assume "isLeaf n" "ver \<noteq> version n"
  then show "map_sum id fst (writeHashBytes (set_version ver n))
             \<noteq> map_sum id fst (writeHashBytes n)"
    by (rule writeHashBytes_leaf_version)
qed

text \<open>
  Witness for claim C6: the leaf \<^verbatim>\<open>("a", "1")\<close>, whose hash-bytes are height 0, size 1,
  key, value and the eight bytes of version 0, and change with the version; and the
  root of S2 with its cached hash cleared, whose hash-bytes are height 1, size 2 and the
  two child hashes, whatever its key and version.
\<close>

theorem writeHashBytes_layout_witness:
  "writeHashBytes leaf_a = Inr ([0, 2, 2, 97, 2, 49, 0, 0, 0, 0, 0, 0, 0, 0], 14, 0, leaf_a)
   \<and> isLeaf leaf_a \<and> version leaf_a \<noteq> 7
   \<and> map_sum id fst (writeHashBytes (set_version 7 leaf_a))
       \<noteq> map_sum id fst (writeHashBytes leaf_a)
   \<and> \<not> isLeaf (set_hash None s2_hashed)
   \<and> writeHashBytes (set_hash None s2_hashed)
       = Inr ([1, 4] @ (40 # hash_leaf_a) @ (40 # hash_leaf_b), 44, 0, set_hash None s2_hashed)
   \<and> map_sum id fst (writeHashBytes (set_version 7 (set_key key_a (set_hash None s2_hashed))))
       = map_sum id fst (writeHashBytes (set_hash None s2_hashed))
   \<and> map_sum id fst (hashWithCount (set_hash None s2_hashed))
       = Inr (Some (ripemd160 ([1, 4] @ (40 # hash_leaf_a) @ (40 # hash_leaf_b))))"
proof -
  have a: "writeHashBytes leaf_a
             = Inr ([0, 2, 2, 97, 2, 49, 0, 0, 0, 0, 0, 0, 0, 0], 14, 0, leaf_a)"
    by (simp add: leaf_a_def hash_eval)
  have b: "isLeaf leaf_a" "version leaf_a \<noteq> 7"
    by (simp_all add: leaf_a_def NewIAVLNode_def isLeaf_def)
  have c: "\<not> isLeaf (set_hash None s2_hashed)"
    by (simp add: s2_hashed_def isLeaf_def)
  have h: "hash (set_hash None s2_hashed) = None"
    by (simp add: s2_hashed_def)
  have d: "writeHashBytes (set_hash None s2_hashed)
       = Inr ([1, 4] @ (40 # hash_leaf_a) @ (40 # hash_leaf_b), 44, 0, set_hash None s2_hashed)"
    by (simp add: s2_hashed_def leaf_a_def leaf_b_def hash_eval)
  note L = writeHashBytes_layout [of leaf_a]
  note I = writeHashBytes_layout [of "set_hash None s2_hashed"]
  from L b have e: "map_sum id fst (writeHashBytes (set_version 7 leaf_a))
       \<noteq> map_sum id fst (writeHashBytes leaf_a)"
    by (metis)
  from I c have f:
    "map_sum id fst (writeHashBytes (set_version 7 (set_key key_a (set_hash None s2_hashed))))
       = map_sum id fst (writeHashBytes (set_hash None s2_hashed))"
    by blast
  from I d h have g: "map_sum id fst (hashWithCount (set_hash None s2_hashed))
       = Inr (Some (ripemd160 ([1, 4] @ (40 # hash_leaf_a) @ (40 # hash_leaf_b))))"
    by blast
  from a b c d e f g show ?thesis by blast
qed

section \<open>Decoding malformed bytes\<close>

text \<open>
  Claim C7 fails on the code: \<^verbatim>\<open>MakeIAVLNode\<close> on the empty byte string does not
  return an error value; it stops with Go's index-out-of-range panic at \<^verbatim>\<open>buf[0]\<close>.
  So it does on bytes that end before the version (here height 0, size 1 and an empty
  key): fewer than eight bytes are left for \<^verbatim>\<open>wire.GetUint64\<close> and \<^verbatim>\<open>buf[8:]\<close>.
\<close>

theorem MakeIAVLNode_empty_panics:
  "MakeIAVLNode [] = Inl (RuntimePanic ''index out of range'')
   \<and> MakeIAVLNode [0, 2, 0] = Inl (RuntimePanic ''index out of range'')"
  by (simp add: MakeIAVLNode_def GetVarint_def GetByteSlice_def GetUint64_def unzigzag_def)

section \<open>Rebalancing is never called on a persisted node\<close>

text \<open>
  The only \<^verbatim>\<open>panic(...)\<close> of the file is the guard of \<^verbatim>\<open>balance\<close>. Loading, copying,
  recomputing height and size, and the rotations stop in other ways only; \<^verbatim>\<open>set\<close> and
  \<^verbatim>\<open>remove\<close> pass a copy to \<^verbatim>\<open>balance\<close>, and a copy is not persisted.
\<close>

lemma copy'_not_persisted: "copy' n = Inr m \<Longrightarrow> \<not> persisted m"
  by (auto simp: copy'_def split: if_splits)

lemma copy'_no_Panic: "copy' n \<noteq> Inl (Panic s)"
  by (simp add: copy'_def)

lemma GetNode_no_Panic: "GetNode t h \<noteq> Inl (Panic s)"
  by (auto simp: GetNode_def split: option.splits sum.splits)

lemma getLeftNode_no_Panic: "getLeftNode t n \<noteq> Inl (Panic s)"
  by (auto simp: getLeftNode_def GetNode_no_Panic split: option.splits)

lemma getRightNode_no_Panic: "getRightNode t n \<noteq> Inl (Panic s)"
  by (auto simp: getRightNode_def GetNode_no_Panic split: option.splits)

lemma calcHeightAndSize_no_Panic: "calcHeightAndSize t n \<noteq> Inl (Panic s)"
  by (auto simp: calcHeightAndSize_def getLeftNode_no_Panic getRightNode_no_Panic
      split: sum.splits)

lemma calcHeightAndSize_persisted:
  "calcHeightAndSize t n = Inr m \<Longrightarrow> persisted m = persisted n"
  by (auto simp: calcHeightAndSize_def set_height_size_def split: sum.splits)

lemma calcBalance_no_Panic: "calcBalance t n \<noteq> Inl (Panic s)"
  by (auto simp: calcBalance_def getLeftNode_no_Panic getRightNode_no_Panic
      split: sum.splits)

lemma rotateRight_no_Panic: "rotateRight t n \<noteq> Inl (Panic s)"
  by (auto simp: rotateRight_def Let_def copy'_no_Panic getLeftNode_no_Panic
      calcHeightAndSize_no_Panic split: sum.splits)

lemma rotateLeft_no_Panic: "rotateLeft t n \<noteq> Inl (Panic s)"
  by (auto simp: rotateLeft_def Let_def copy'_no_Panic getRightNode_no_Panic
      calcHeightAndSize_no_Panic split: sum.splits)

lemma balance_no_Panic: "\<not> persisted n \<Longrightarrow> balance t n \<noteq> Inl (Panic s)"
  by (auto simp: balance_def Let_def calcBalance_no_Panic getLeftNode_no_Panic
      getRightNode_no_Panic rotateRight_no_Panic rotateLeft_no_Panic
      split: sum.splits prod.splits)

lemma set_finish_no_Panic: "\<not> persisted n \<Longrightarrow> set_finish t n u os \<noteq> Inl (Panic s)"
  by (auto simp: set_finish_def calcHeightAndSize_no_Panic
      dest!: calcHeightAndSize_persisted dest: balance_no_Panic split: sum.splits prod.splits)

lemma remove_rebalance_no_Panic:
  "\<not> persisted n \<Longrightarrow> remove_rebalance t n nk v \<noteq> Inl (Panic s)"
  by (auto simp: remove_rebalance_def calcHeightAndSize_no_Panic
      dest!: calcHeightAndSize_persisted dest: balance_no_Panic split: sum.splits prod.splits)

lemma set_left_persisted [simp]: "persisted (set_left h c n) = persisted n"
  by (simp add: set_left_def)

lemma set_right_persisted [simp]: "persisted (set_right h c n) = persisted n"
  by (simp add: set_right_def)

lemma set_key_persisted [simp]: "persisted (set_key k n) = persisted n"
  by (simp add: set_key_def)

lemma set'_no_Panic: "set' fuel t n k v \<noteq> Some (Inl (Panic s))"
proof (induction fuel arbitrary: t n)
  case 0
  show ?case by simp
next
  case (Suc fuel)
  show ?case
    by (auto simp: Let_def copy'_no_Panic getLeftNode_no_Panic getRightNode_no_Panic Suc
        set_finish_no_Panic copy'_not_persisted split: sum.splits option.splits prod.splits)
qed

lemma remove'_no_Panic: "remove' fuel t n k \<noteq> Some (Inl (Panic s))"
proof (induction fuel arbitrary: t n)
  case 0
  show ?case by simp
next
  case (Suc fuel)
  show ?case
    by (auto simp: Let_def copy'_no_Panic getLeftNode_no_Panic getRightNode_no_Panic Suc
        remove_rebalance_no_Panic copy'_not_persisted split: sum.splits option.splits prod.splits)
qed

text \<open>
  Claim C8. \<^verbatim>\<open>balance\<close> on a node whose \<^verbatim>\<open>persisted\<close> flag is set stops with the panic
  \<^verbatim>\<open>Unexpected balance() call on persisted node\<close>; no call of \<^verbatim>\<open>set\<close> or \<^verbatim>\<open>remove\<close>, on
  any tree, node, key and value and with any fuel, ends in that panic.
\<close>

theorem balance_persisted_fatal_unreachable:
  "(\<forall>t node. persisted node \<longrightarrow>
      balance t node = Inl (Panic ''Unexpected balance() call on persisted node''))
   \<and> (\<forall>fuel t node k v.
      set' fuel t node k v \<noteq> Some (Inl (Panic ''Unexpected balance() call on persisted node'')))
   \<and> (\<forall>fuel t node k.
      remove' fuel t node k \<noteq> Some (Inl (Panic ''Unexpected balance() call on persisted node'')))"
  by (simp add: balance_def set'_no_Panic remove'_no_Panic)

text \<open>
  Witness for claim C8: the persisted root of S2. \<^verbatim>\<open>balance\<close> on it panics; inserting
  \<^verbatim>\<open>"c"\<close> below it and removing \<^verbatim>\<open>"a"\<close> from it do not.
\<close>

theorem balance_persisted_fatal_unreachable_witness:
  "persisted s2_persisted
   \<and> balance s2_store s2_persisted = Inl (Panic ''Unexpected balance() call on persisted node'')
   \<and> set' 2 s2_store s2_persisted key_c val_3
        \<noteq> Some (Inl (Panic ''Unexpected balance() call on persisted node''))
   \<and> remove' 2 s2_store s2_persisted key_a
        \<noteq> Some (Inl (Panic ''Unexpected balance() call on persisted node''))"
proof -
  have p: "persisted s2_persisted" by (simp add: s2_persisted_def)
  from balance_persisted_fatal_unreachable p show ?thesis by blast
qed

section \<open>Traversal\<close>

text \<open>
  The two range tests of the source are the predicates of the spec; \<^verbatim>\<open>beforeEnd\<close> is
  computed for the exclusive case first and replaced when \<^verbatim>\<open>inclusive\<close> is set.
\<close>

lemma beforeEnd_source:
  "(if inclusive then (end' = None \<or> bytes_Compare (key n) end' \<le> 0)
    else (end' = None \<or> bytes_Compare (key n) end' < 0)) = beforeEnd end' inclusive n"
  by (simp add: beforeEnd_def)

lemma afterStart_source:
  "(start = None \<or> bytes_Compare start (key n) \<le> 0) = afterStart start n"
  by (simp add: afterStart_def)

lemma traverseInRange_traverseRange:
  "traverseInRange fuel t n start end' ascending inclusive cb s
     = traverseRange fuel t n start end' ascending inclusive cb s"
proof (induction fuel arbitrary: n s)
  case 0
  show ?case by simp
next
  case (Suc fuel)
  show ?case
    unfolding traverseInRange.simps traverseRange.simps Let_def
      beforeEnd_source afterStart_source Suc
    by (cases "cb s n"; cases ascending; cases "afterStart start n";
        cases "beforeEnd end' inclusive n")
       (simp_all split: sum.splits option.splits prod.splits bool.splits)
qed

text \<open>
  Claim C9. \<^verbatim>\<open>traverse\<close> is \<^verbatim>\<open>traverseInRange\<close> with no start, no end and
  \<^verbatim>\<open>inclusive = false\<close>, and \<^verbatim>\<open>traverseInRange\<close> is the traversal of section 4.5 of the
  spec (\<open>traverseRange\<close>): the callback is called on a node exactly when \<open>afterStart\<close>
  and \<open>beforeEnd\<close> both hold; ascending order enters the left child only if
  \<open>afterStart\<close>, then the right child only if \<open>beforeEnd\<close>; descending order is the
  mirror; a callback that returns stop ends every remaining step. The two agree on the
  calls made to the callback, on their order (the callback's state is threaded), on
  failures of the node store and on running out of fuel.
\<close>

theorem traverse_as_specified:
  "traverse fuel t n ascending cb s = traverseRange fuel t n None None ascending False cb s
   \<and> traverseInRange fuel t n start end' ascending inclusive cb s
       = traverseRange fuel t n start end' ascending inclusive cb s"
  by (simp add: traverse_def traverseInRange_traverseRange)

text \<open>The traversal of the spec on the tree of S3, evaluated.\<close>

lemmas traverseRange_numeral =
  traverseRange.simps(2) [of "pred_numeral n", folded numeral_eq_Suc] for n

lemmas traverse_eval =
  traverseRange_numeral afterStart_def beforeEnd_def visit_all_def visit_until_def
  s3_tree_def scenario_defs node_ops

lemma traverseRange_s3_ascending: "traverseRange 3 no_store s3_tree None None True False visit_all []
     = Some (Inr (False, [key_c, key_b, key_a, key_b, key_c]))"
  by (simp add: traverse_eval cong: eval_cong)

lemma traverseRange_s3_descending: "traverseRange 3 no_store s3_tree None None False False visit_all []
     = Some (Inr (False, [key_c, key_c, key_b, key_b, key_a]))"
  by (simp add: traverse_eval cong: eval_cong)

lemma traverseRange_s3_stop: "traverseRange 3 no_store s3_tree None None True False (visit_until key_a) []
     = Some (Inr (True, [key_c, key_b, key_a]))"
  by (simp add: traverse_eval cong: eval_cong)

lemma traverseRange_s3_exclusive: "traverseRange 3 no_store s3_tree key_b key_c True False visit_all []
     = Some (Inr (False, [key_b, key_b]))"
  by (simp add: traverse_eval cong: eval_cong)

lemma traverseRange_s3_inclusive: "traverseRange 3 no_store s3_tree key_b key_c True True visit_all []
     = Some (Inr (False, [key_c, key_b, key_b, key_c]))"
  by (simp add: traverse_eval cong: eval_cong)

text \<open>
  Witness for claim C9, on the tree built by inserting \<^verbatim>\<open>"c"\<close>, \<^verbatim>\<open>"b"\<close>, \<^verbatim>\<open>"a"\<close>:
  the keys of the nodes the callback is called on, ascending, descending, ascending
  with a stop at the leaf \<^verbatim>\<open>"a"\<close>, and in the range from \<^verbatim>\<open>"b"\<close> to \<^verbatim>\<open>"c"\<close>, exclusive and
  inclusive.
\<close>

theorem traverse_as_specified_witness:
  "traverse 3 no_store s3_tree True visit_all []
     = Some (Inr (False, [key_c, key_b, key_a, key_b, key_c]))
   \<and> traverse 3 no_store s3_tree False visit_all []
     = Some (Inr (False, [key_c, key_c, key_b, key_b, key_a]))
   \<and> traverse 3 no_store s3_tree True (visit_until key_a) []
     = Some (Inr (True, [key_c, key_b, key_a]))
   \<and> traverseInRange 3 no_store s3_tree key_b key_c True False visit_all []
     = Some (Inr (False, [key_b, key_b]))
   \<and> traverseInRange 3 no_store s3_tree key_b key_c True True visit_all []
     = Some (Inr (False, [key_c, key_b, key_b, key_c]))"
proof -
  note spec = traverse_as_specified [where fuel = 3 and t = no_store and n = s3_tree]
  show ?thesis
    by (simp only: spec [THEN conjunct1] spec [THEN conjunct2]
          traverseRange_s3_ascending traverseRange_s3_descending traverseRange_s3_stop traverseRange_s3_exclusive traverseRange_s3_inclusive simp_thms)
qed

section \<open>Lookup at a separator\<close>

text \<open>
  Under the invariant on separators, the key of an inner node is the key of a leaf of
  its right subtree.
\<close>

lemma separator_is_leaf_key:
  assumes "\<not> isLeaf node" and "separators_ok node" and "bytes_Equal (key node) k"
  shows "the_bytes k \<in> fst ` set (leaves node)"
proof (cases node)
  case (IAVLNode k' v ver h sz hs lh ln rh rn p)
  with assms(1) have h: "h \<noteq> 0" by (simp add: isLeaf_def)
  from assms(2) IAVLNode h obtain l r where
    c: "ln = Some l" "rn = Some r" and s: "smallest (the_bytes k') (map fst (leaves r))"
    by (auto split: option.splits)
  from assms(3) IAVLNode have "the_bytes k = the_bytes k'"
    by (simp add: bytes_Equal_def)
  with s have "the_bytes k \<in> fst ` set (leaves r)"
    by (simp add: smallest_def)
  with IAVLNode h c show ?thesis by auto
qed

text \<open>
  Claim C10. \<^verbatim>\<open>has\<close> answers true as soon as the search key is byte-equal to the key
  of the node at hand, leaf or inner: one call is enough, whatever the node store and
  the children are, so nothing is loaded. For an inner node the answer is right under
  the invariant that every separator is the smallest key of its right subtree: the key
  is then the key of a leaf. Without the invariant it can be wrong: the tree with
  separator \<^verbatim>\<open>"b"\<close> over the leaves \<^verbatim>\<open>"a"\<close> and \<^verbatim>\<open>"c"\<close> has no entry \<^verbatim>\<open>"b"\<close>, and \<^verbatim>\<open>has\<close>
  answers true.
\<close>

theorem has_at_separator:
  "(\<forall>fuel t node k. bytes_Equal (key node) k \<longrightarrow> has (Suc fuel) t node k = Some (Inr True))
   \<and> (\<forall>node k. \<not> isLeaf node \<longrightarrow> separators_ok node \<longrightarrow> bytes_Equal (key node) k \<longrightarrow>
         the_bytes k \<in> fst ` set (leaves node))
   \<and> \<not> isLeaf bad_separator_tree
   \<and> \<not> separators_ok bad_separator_tree
   \<and> has 1 no_store bad_separator_tree key_b = Some (Inr True)
   \<and> the_bytes key_b \<notin> fst ` set (leaves bad_separator_tree)"
proof (intro conjI allI impI)
  fix node k
  assume "\<not> isLeaf node" "separators_ok node" "bytes_Equal (key node) k"
  then show "the_bytes k \<in> fst ` set (leaves node)"
    by (rule separator_is_leaf_key)
qed (simp_all add: bad_separator_tree_def smallest_def scenario_defs node_ops)

text \<open>
  Witness for claim C10: the key \<^verbatim>\<open>"c"\<close> at the root of the tree of S3, which keeps the
  invariant, and at a node with that key and no child at all.
\<close>

theorem has_at_separator_witness:
  "bytes_Equal (key s3_tree) key_c
   \<and> has 1 \<lparr>ndb = None\<rparr> (IAVLNode key_c None 0 2 3 None None None None None False) key_c
        = Some (Inr True)
   \<and> \<not> isLeaf s3_tree \<and> separators_ok s3_tree
   \<and> has 1 no_store s3_tree key_c = Some (Inr True)
   \<and> the_bytes key_c \<in> fst ` set (leaves s3_tree)"
proof -
  have a: "bytes_Equal (key s3_tree) key_c"
    by (simp add: s3_tree_def scenario_defs node_ops)
  have a': "bytes_Equal (key (IAVLNode key_c None 0 2 3 None None None None None False)) key_c"
    by (simp add: bytes_Equal_def)
  have b: "\<not> isLeaf s3_tree" by (simp add: s3_tree_def scenario_defs node_ops)
  have c: "separators_ok s3_tree"
    by (simp add: s3_tree_def smallest_def scenario_defs node_ops)
  from has_at_separator have
    H: "\<And>fuel t node k. bytes_Equal (key node) k \<Longrightarrow> has (Suc fuel) t node k = Some (Inr True)"
    and L: "\<And>node k. \<not> isLeaf node \<Longrightarrow> separators_ok node \<Longrightarrow> bytes_Equal (key node) k \<Longrightarrow>
              the_bytes k \<in> fst ` set (leaves node)"
    by blast+
  have d: "has (Suc 0) \<lparr>ndb = None\<rparr> (IAVLNode key_c None 0 2 3 None None None None None False)
             key_c = Some (Inr True)"
    by (rule H [OF a'])
  have e: "has (Suc 0) no_store s3_tree key_c = Some (Inr True)"
    by (rule H [OF a])
  have f: "the_bytes key_c \<in> fst ` set (leaves s3_tree)"
    by (rule L [OF b c a])
  show ?thesis
    unfolding One_nat_def using a b c d e f by blast
qed

end
